theory Spec2Isabelle
  imports Main "HOL-Library.Char_ord" "HOL-Library.List_Lexorder" "HOL-Library.Multiset"
begin

section \<open>Text primitives of the generator\<close>

text \<open>
  \<^verbatim>\<open>scripts/gen_syscalls.py\<close> works on Python \<^verbatim>\<open>str\<close> values. A character is
  modelled by its code point, for the code points below 256, so a \<^typ>\<open>string\<close> is the
  text of a header and \<open>CHR 0x0A\<close> is the line feed.
\<close>

definition is_space :: "char \<Rightarrow> bool" where
  \<comment> \<open>the characters \<^verbatim>\<open>str.strip()\<close> removes and \<^verbatim>\<open>\s\<close> matches, below code point 256\<close>
  "is_space c =
     (let n = (of_char c :: nat)
      in (9 \<le> n \<and> n \<le> 13) \<or> (28 \<le> n \<and> n \<le> 32) \<or> n = 133 \<or> n = 160)"

definition is_ident :: "char \<Rightarrow> bool" where
  \<comment> \<open>the character class \<^verbatim>\<open>[A-Za-z0-9_]\<close>\<close>
  "is_ident c =
     (let n = (of_char c :: nat)
      in (65 \<le> n \<and> n \<le> 90) \<or> (97 \<le> n \<and> n \<le> 122) \<or> (48 \<le> n \<and> n \<le> 57) \<or> n = 95)"

definition strip :: "string \<Rightarrow> string" where
  \<comment> \<open>\<^verbatim>\<open>s.strip()\<close>\<close>
  "strip s = rev (dropWhile is_space (rev (dropWhile is_space s)))"

definition upper_char :: "char \<Rightarrow> char" where
  "upper_char c =
     (let n = (of_char c :: nat) in if 97 \<le> n \<and> n \<le> 122 then char_of (n - 32) else c)"

definition upper :: "string \<Rightarrow> string" where
  \<comment> \<open>\<^verbatim>\<open>s.upper()\<close>, for the characters a function name can hold (see \<open>is_ident\<close>)\<close>
  "upper s = map upper_char s"

fun join :: "string \<Rightarrow> string list \<Rightarrow> string" where
  \<comment> \<open>\<^verbatim>\<open>sep.join(xs)\<close>\<close>
  "join sep [] = []"
| "join sep [x] = x"
| "join sep (x # y # ys) = x @ sep @ join sep (y # ys)"

fun split_on :: "char \<Rightarrow> string \<Rightarrow> string list" where
  \<comment> \<open>\<^verbatim>\<open>s.split(c)\<close> for a separator of one character: never an empty list\<close>
  "split_on c [] = [[]]"
| "split_on c (x # xs) =
     (if x = c then [] # split_on c xs
      else (case split_on c xs of
              [] \<Rightarrow> [[x]]
            | p # ps \<Rightarrow> (x # p) # ps))"

fun digit_char :: "nat \<Rightarrow> char" where
  "digit_char n = char_of (48 + n)"

fun str_of_nat :: "nat \<Rightarrow> string" where
  \<comment> \<open>\<^verbatim>\<open>"%d" % n\<close> for a length\<close>
  "str_of_nat n =
     (if n < 10 then [digit_char n] else str_of_nat (n div 10) @ [digit_char (n mod 10)])"

declare str_of_nat.simps [simp del]

section \<open>The type and name splitter\<close>

datatype exn = SyscallParseException string | OSError

text \<open>
  \<^verbatim>\<open>typename_regex = re.compile(r'(.*?)([A-Za-z0-9_]+)$')\<close>, used with \<^verbatim>\<open>match\<close>:
  the lazy first group grows one character at a time and never over a line feed
  (no \<^verbatim>\<open>DOTALL\<close>); at each length the second group takes the longest run of identifier
  characters, and \<^verbatim>\<open>$\<close> (no \<^verbatim>\<open>MULTILINE\<close>) holds at the end of the text or before a line
  feed that ends it. A shorter second group is followed by an identifier character, where
  \<^verbatim>\<open>$\<close> cannot hold.
\<close>

definition at_dollar :: "string \<Rightarrow> bool" where
  "at_dollar rest = (rest = [] \<or> rest = [CHR 0x0A])"

fun typename_match :: "string \<Rightarrow> string \<Rightarrow> (string \<times> string) option" where
  "typename_match pre [] = None"
| "typename_match pre (c # cs) =
     (let run = takeWhile is_ident (c # cs); after = dropWhile is_ident (c # cs)
      in if run \<noteq> [] \<and> at_dollar after then Some (pre, run)
         else if c = CHR 0x0A then None
         else typename_match (pre @ [c]) cs)"

definition typename_split :: "string \<Rightarrow> exn + (string \<times> string)" where
  "typename_split item =
     (if CHR ''['' \<in> set item then
        Inl (SyscallParseException
               (''Please pass arrays to syscalls as pointers, unable to process ''
                @ [CHR 0x27] @ item @ [CHR 0x27]))
      else if CHR ''('' \<in> set item then
        Inl (SyscallParseException ''Please use typedefs for function pointers'')
      else (case typename_match [] item of
              None \<Rightarrow> Inl (SyscallParseException ''Malformed system call invocation'')
            | Some (m0, m1) \<Rightarrow> Inr (strip m0, m1)))"

section \<open>The declaration analyzer\<close>

record syscall =
  sc_fn :: string
  sc_handler :: string
  sc_invocation :: string
  sc_sys_id :: string
  sc_table_entry :: string

definition macro_name :: "nat \<Rightarrow> bool \<Rightarrow> bool \<Rightarrow> string" where
  \<comment> \<open>\<^verbatim>\<open>"K_SYSCALL_DECLARE%d%s%s" % (len(args), "_VOID" if is_void else "", "_INLINE" if ... else "")\<close>\<close>
  "macro_name n is_void is_inline =
     ''K_SYSCALL_DECLARE'' @ str_of_nat n
       @ (if is_void then ''_VOID'' else [])
       @ (if is_inline then ''_INLINE'' else [])"

fun split_each :: "string list \<Rightarrow> exn + (string \<times> string) list" where
  \<comment> \<open>\<^verbatim>\<open>[typename_split(a.strip()) for a in pieces]\<close>: the first failure is raised\<close>
  "split_each [] = Inr []"
| "split_each (a # as) =
     (case typename_split (strip a) of
        Inl e \<Rightarrow> Inl e
      | Inr p \<Rightarrow> (case split_each as of Inl e \<Rightarrow> Inl e | Inr ps \<Rightarrow> Inr (p # ps)))"

definition analyze_args :: "string \<Rightarrow> exn + (string \<times> string) list" where
  \<comment> \<open>lines 47 to 50 of the script\<close>
  "analyze_args args =
     (if args = ''void'' then Inr [] else split_each (split_on CHR '','' args))"

definition flatten_args :: "(string \<times> string) list \<Rightarrow> string list" where
  \<comment> \<open>\<^verbatim>\<open>[i for sublist in args for i in sublist]\<close>\<close>
  "flatten_args args = concat (map (\<lambda>(t, p). [t, p]) args)"

text \<open>
  \<open>analyze_fn\<close> returns the record, or the exception together with the line it wrote to
  the standard error stream before raising it again.
\<close>

definition analyze_fn :: "string \<times> string \<times> string \<Rightarrow> string \<Rightarrow> (string \<times> exn) + syscall" where
  "analyze_fn match_group fn =
     (case match_group of (variant, func, args) \<Rightarrow>
        (case analyze_args args of
           Inl e \<Rightarrow> Inl (''In declaration of '' @ func @ [CHR 0x0A], e)
         | Inr args' \<Rightarrow>
             (case typename_split func of
                Inl e \<Rightarrow> Inl (''In declaration of '' @ func @ [CHR 0x0A], e)
              | Inr (func_type, func_name) \<Rightarrow>
                  (let sys_id = ''K_SYSCALL_'' @ upper func_name;
                       is_void = (func_type = ''void'');
                       macro = macro_name (length args') is_void (variant = ''syscall_inline'');
                       flat_args = flatten_args args';
                       flat_args1 = (if \<not> is_void then [func_type] @ flat_args else flat_args);
                       flat_args2 = [sys_id, func_name] @ flat_args1;
                       argslist = join '', '' flat_args2;
                       invocation = macro @ ''('' @ argslist @ '');'';
                       handler = ''_handler_'' @ func_name;
                       table_entry = ''['' @ sys_id @ ''] = '' @ handler
                   in Inr \<lparr>sc_fn = fn, sc_handler = handler, sc_invocation = invocation,
                           sc_sys_id = sys_id, sc_table_entry = table_entry\<rparr>))))"

section \<open>The declaration extractor\<close>

text \<open>
  \<^verbatim>\<open>api_regex\<close> is \<^verbatim>\<open>__(syscall|syscall_inline)\s+([^(]+)[(]([^)]*)[)]\<close>. The matcher below
  follows the backtracking search of \<^verbatim>\<open>re\<close>: the alternatives in their order, the greedy
  \<^verbatim>\<open>\s+\<close> giving characters back one at a time, and the two greedy classes, which can only
  end at the first parenthesis they exclude.
\<close>

fun strip_prefix :: "string \<Rightarrow> string \<Rightarrow> string option" where
  "strip_prefix [] s = Some s"
| "strip_prefix (p # ps) [] = None"
| "strip_prefix (p # ps) (c # cs) = (if p = c then strip_prefix ps cs else None)"

definition match_tail :: "string \<Rightarrow> (string \<times> string \<times> string) option" where
  \<comment> \<open>\<^verbatim>\<open>([^(]+)[(]([^)]*)[)]\<close>: the two groups and the text after the match\<close>
  "match_tail t =
     (let func = takeWhile (\<lambda>c. c \<noteq> CHR ''('') t
      in if func = [] then None
         else (case dropWhile (\<lambda>c. c \<noteq> CHR ''('') t of
                 [] \<Rightarrow> None
               | _ # t2 \<Rightarrow>
                   (case dropWhile (\<lambda>c. c \<noteq> CHR '')'') t2 of
                      [] \<Rightarrow> None
                    | _ # rest \<Rightarrow> Some (func, takeWhile (\<lambda>c. c \<noteq> CHR '')'') t2, rest))))"

fun first_some :: "('a \<Rightarrow> 'b option) \<Rightarrow> 'a list \<Rightarrow> 'b option" where
  "first_some f [] = None"
| "first_some f (x # xs) = (case f x of Some y \<Rightarrow> Some y | None \<Rightarrow> first_some f xs)"

definition after_keyword :: "string \<Rightarrow> (string \<times> string \<times> string) option" where
  \<comment> \<open>\<^verbatim>\<open>\s+\<close> with the longest run first, then the rest of the pattern\<close>
  "after_keyword r =
     (let k = length (takeWhile is_space r)
      in first_some (\<lambda>j. match_tail (drop j r)) (rev [1..<Suc k]))"

definition api_match_at :: "string \<Rightarrow> ((string \<times> string \<times> string) \<times> string) option" where
  \<comment> \<open>a match of \<^verbatim>\<open>api_regex\<close> that starts at the head of the text\<close>
  "api_match_at s =
     (case strip_prefix ''__syscall'' s of
        None \<Rightarrow> None
      | Some r \<Rightarrow>
          (case after_keyword r of
             Some (func, args, rest) \<Rightarrow> Some ((''syscall'', func, args), rest)
           | None \<Rightarrow>
               (case strip_prefix ''_inline'' r of
                  None \<Rightarrow> None
                | Some r' \<Rightarrow>
                    (case after_keyword r' of
                       Some (func, args, rest) \<Rightarrow> Some ((''syscall_inline'', func, args), rest)
                     | None \<Rightarrow> None))))"

function finditer :: "string \<Rightarrow> (string \<times> string \<times> string) list" where
  \<comment> \<open>\<^verbatim>\<open>[mo.groups() for mo in api_regex.finditer(text)]\<close>\<close>
  "finditer [] = []"
| "finditer (c # cs) =
     (case api_match_at (c # cs) of
        Some (g, rest) \<Rightarrow> g # finditer rest
      | None \<Rightarrow> finditer cs)"
  by pat_completeness auto
termination
proof (relation "measure length")
  show "wf (measure (length :: string \<Rightarrow> nat))" by simp
next
  fix c :: char and cs :: string and x2 :: "(string \<times> string \<times> string) \<times> string"
    and x y
  assume m: "api_match_at (c # cs) = Some x2" and x2: "(x, y) = x2"
  have pre: "length r \<le> length s" if "strip_prefix p s = Some r" for p s r
    using that by (induction p s rule: strip_prefix.induct) (auto split: if_splits)
  have tail: "length rest < length t" if "match_tail t = Some (f, a, rest)" for t f a rest
  proof (cases "dropWhile (\<lambda>c. c \<noteq> CHR ''('') t")
    case Nil
    show ?thesis
      using that by (simp add: match_tail_def Let_def Nil split: if_splits)
  next
    case outer: (Cons x t2)
    show ?thesis
    proof (cases "dropWhile (\<lambda>c. c \<noteq> CHR '')'') t2")
      case Nil
      show ?thesis
        using that by (simp add: match_tail_def Let_def outer Nil split: if_splits)
    next
      case inner: (Cons y r)
      have "rest = r"
        using that by (simp add: match_tail_def Let_def outer inner split: if_splits)
      moreover have "length (y # r) \<le> length t2"
        using length_dropWhile_le [of "\<lambda>c. c \<noteq> CHR '')''" t2] inner by simp
      moreover have "length (x # t2) \<le> length t"
        using length_dropWhile_le [of "\<lambda>c. c \<noteq> CHR ''(''" t] outer by simp
      ultimately show ?thesis by simp
    qed
  qed
  have fs: "\<exists>j. match_tail (drop j r) = Some v" if "first_some (\<lambda>j. match_tail (drop j r)) js = Some v"
    for r js v
    using that by (induction js) (auto split: option.splits)
  have kw: "length rest < length r" if found: "after_keyword r = Some (f, a, rest)" for r f a rest
  proof -
    have "\<exists>j. match_tail (drop j r) = Some (f, a, rest)"
      using found unfolding after_keyword_def Let_def by (rule fs)
    then obtain j where "match_tail (drop j r) = Some (f, a, rest)" ..
    then have "length rest < length (drop j r)" by (rule tail)
    then show ?thesis by simp
  qed
  have "length y < length (c # cs)"
    using m x2 [symmetric] unfolding api_match_at_def
    by (auto simp del: strip_prefix.simps split: option.splits prod.splits dest!: kw pre)
  then show "(y, c # cs) \<in> measure length" by simp
next
  fix c :: char and cs :: string
  show "(cs, c # cs) \<in> measure length" by simp
qed

section \<open>The tree walker\<close>

text \<open>
  The include directory is given as what \<^verbatim>\<open>os.walk\<close> yields on it: for each directory
  visited, in the order of the visit, its path and its files, each file with its name and
  the text \<^verbatim>\<open>fp.read()\<close> returns for it.
\<close>

type_synonym walk = "(string \<times> (string \<times> string) list) list"

definition endswith :: "string \<Rightarrow> string \<Rightarrow> bool" where
  "endswith s suf = (length suf \<le> length s \<and> drop (length s - length suf) s = suf)"

definition path_join :: "string \<Rightarrow> string \<Rightarrow> string" where
  \<comment> \<open>\<^verbatim>\<open>os.path.join(a, b)\<close> of \<^verbatim>\<open>posixpath\<close>\<close>
  "path_join a b =
     (if b \<noteq> [] \<and> hd b = CHR ''/'' then b
      else if a = [] \<or> last a = CHR ''/'' then a @ b
      else a @ ''/'' @ b)"

fun analyze_matches :: "string \<Rightarrow> (string \<times> string \<times> string) list \<Rightarrow> (string \<times> exn) + syscall list" where
  \<comment> \<open>\<^verbatim>\<open>[analyze_fn(mo.groups(), fn) for mo in ...]\<close>\<close>
  "analyze_matches fn [] = Inr []"
| "analyze_matches fn (g # gs) =
     (case analyze_fn g fn of
        Inl e \<Rightarrow> Inl e
      | Inr r \<Rightarrow> (case analyze_matches fn gs of Inl e \<Rightarrow> Inl e | Inr rs \<Rightarrow> Inr (r # rs)))"

definition analyze_file :: "string \<Rightarrow> string \<Rightarrow> (string \<times> exn) + syscall list" where
  \<comment> \<open>lines 97 to 103: the diagnostic of the handler follows that of \<open>analyze_fn\<close>\<close>
  "analyze_file fn text =
     (case analyze_matches fn (finditer text) of
        Inl (diag, e) \<Rightarrow> Inl (diag @ ''While parsing '' @ fn @ [CHR 0x0A], e)
      | Inr result \<Rightarrow> Inr result)"

definition skipped :: "string \<Rightarrow> string \<Rightarrow> bool" where
  \<comment> \<open>the test of line 94\<close>
  "skipped root fn =
     (\<not> endswith fn ''.h'' \<or> endswith (path_join root fn) ''toolchain/common.h'')"

fun analyze_files :: "string \<Rightarrow> (string \<times> string) list \<Rightarrow> (string \<times> exn) + syscall list" where
  "analyze_files root [] = Inr []"
| "analyze_files root ((fn, text) # files) =
     (if skipped root fn then analyze_files root files
      else (case analyze_file fn text of
              Inl e \<Rightarrow> Inl e
            | Inr result \<Rightarrow>
                (case analyze_files root files of
                   Inl e \<Rightarrow> Inl e
                 | Inr ret \<Rightarrow> Inr (result @ ret))))"

fun analyze_headers :: "walk \<Rightarrow> (string \<times> exn) + syscall list" where
  "analyze_headers [] = Inr []"
| "analyze_headers ((root, files) # dirs) =
     (case analyze_files root files of
        Inl e \<Rightarrow> Inl e
      | Inr result \<Rightarrow>
          (case analyze_headers dirs of
             Inl e \<Rightarrow> Inl e
           | Inr ret \<Rightarrow> Inr (result @ ret)))"

section \<open>The output synthesizer\<close>

definition table_template :: "string \<Rightarrow> string \<Rightarrow> string" where
  "table_template weak_defines entries =
     ''/* auto-generated by gen_syscalls.py, don't edit */\<newline>''
     @ ''\<newline>''
     @ ''/* Weak handler functions that get replaced by the real ones unles a system\<newline>''
     @ '' * call is not implemented due to kernel configuration\<newline>''
     @ '' */\<newline>''
     @ weak_defines @ ''\<newline>''
     @ ''\<newline>''
     @ ''const _k_syscall_handler_t _k_syscall_table[K_SYSCALL_LIMIT] = {\<newline>''
     @ [CHR 0x09] @ entries @ ''\<newline>''
     @ ''};\<newline>''"

definition list_template :: "string \<Rightarrow> string \<Rightarrow> string" where
  "list_template ids handler_defines =
     ''\<newline>''
     @ ''/* auto-generated by gen_syscalls.py, don't edit */\<newline>''
     @ ''#ifndef _ZEPHYR_SYSCALL_LIST_H_\<newline>''
     @ ''#define _ZEPHYR_SYSCALL_LIST_H_\<newline>''
     @ ''\<newline>''
     @ ''#ifndef _ASMLANGUAGE\<newline>''
     @ ''\<newline>''
     @ ''#ifdef __cplusplus\<newline>''
     @ ''extern '' @ [CHR 0x22] @ ''C'' @ [CHR 0x22] @ '' {\<newline>''
     @ ''#endif\<newline>''
     @ ''\<newline>''
     @ ''enum {\<newline>''
     @ [CHR 0x09] @ ids @ ''\<newline>''
     @ ''};\<newline>''
     @ ''\<newline>''
     @ handler_defines @ ''\<newline>''
     @ ''\<newline>''
     @ ''#ifdef __cplusplus\<newline>''
     @ ''}\<newline>''
     @ ''#endif\<newline>''
     @ ''\<newline>''
     @ ''#endif /* _ASMLANGUAGE */\<newline>''
     @ ''\<newline>''
     @ ''#endif /* _ZEPHYR_SYSCALL_LIST_H_ */\<newline>''"

definition syscall_template :: "string \<Rightarrow> string" where
  "syscall_template invocations =
     ''\<newline>''
     @ ''/* auto-generated by gen_syscalls.py, don't edit */\<newline>''
     @ ''\<newline>''
     @ ''#ifndef _ASMLANGUAGE\<newline>''
     @ ''\<newline>''
     @ ''#include <syscall_list.h>\<newline>''
     @ ''#include <syscall_macros.h>\<newline>''
     @ ''\<newline>''
     @ ''#ifdef __cplusplus\<newline>''
     @ ''extern '' @ [CHR 0x22] @ ''C'' @ [CHR 0x22] @ '' {\<newline>''
     @ ''#endif\<newline>''
     @ ''\<newline>''
     @ invocations @ ''\<newline>''
     @ ''\<newline>''
     @ ''#ifdef __cplusplus\<newline>''
     @ ''}\<newline>''
     @ ''#endif\<newline>''
     @ ''\<newline>''
     @ ''#endif\<newline>''"

definition handler_template :: "string \<Rightarrow> string" where
  "handler_template name =
     ''\<newline>''
     @ ''extern u32_t '' @ name @ ''(u32_t arg1, u32_t arg2, u32_t arg3,\<newline>''
     @ ''                u32_t arg4, u32_t arg5, u32_t arg6, void *ssf);\<newline>''"

definition weak_template :: "string \<Rightarrow> string" where
  "weak_template name =
     ''\<newline>''
     @ ''__weak ALIAS_OF(_handler_no_syscall)\<newline>''
     @ ''u32_t '' @ name @ ''(u32_t arg1, u32_t arg2, u32_t arg3,\<newline>''
     @ ''         u32_t arg4, u32_t arg5, u32_t arg6, void *ssf);\<newline>''"

section \<open>The file system\<close>

text \<open>
  What a run can change: the files, the directories, the two standard streams, and the
  record of the files opened for writing, in the order of the writes. A file or a directory
  is known by its location, the list of names that leads to it from the root; there are no
  links, so a file has one location, and two paths that lead to the same location name the
  same file. A file holds the text that \<^verbatim>\<open>fp.write\<close> stored (a line feed is written as it
  is); reading in text mode translates the line ends. The calls fail as POSIX makes them
  fail on missing directories, on files where a directory is needed and on directories
  where a file is needed; \<open>OSError\<close> stands for the exception they raise then, whatever
  its subclass. Permissions, devices and encodings never fail, and the traceback of an
  uncaught exception is not part of \<open>err\<close>.
\<close>

type_synonym loc = "string list"

record world =
  file_at :: "loc \<rightharpoonup> string"
  dir_set :: "loc set"
  cwd :: loc
  out :: string
  err :: string
  written :: "loc list"

definition step :: "loc \<Rightarrow> string \<Rightarrow> loc" where
  \<comment> \<open>one component of a path, from the directory \<open>cur\<close>\<close>
  "step cur c =
     (if c = [] \<or> c = ''.'' then cur
      else if c = ''..'' then butlast cur
      else cur @ [c])"

fun walk :: "loc set \<Rightarrow> loc \<Rightarrow> string list \<Rightarrow> loc option" where
  \<comment> \<open>path resolution: every component is looked up in an existing directory\<close>
  "walk ds cur [] = Some cur"
| "walk ds cur (c # cs) = (if cur \<in> ds then walk ds (step cur c) cs else None)"

definition start :: "world \<Rightarrow> string \<Rightarrow> loc" where
  "start w path = (if path \<noteq> [] \<and> hd path = CHR ''/'' then [] else cwd w)"

definition resolve :: "world \<Rightarrow> string \<Rightarrow> loc option" where
  \<comment> \<open>the location a path names, when the directories on its way exist\<close>
  "resolve w path =
     (if path = [] then None
      else walk (dir_set w) (start w path) (split_on CHR ''/'' path))"

definition path_exists :: "world \<Rightarrow> string \<Rightarrow> bool" where
  \<comment> \<open>\<^verbatim>\<open>os.path.exists(path)\<close>\<close>
  "path_exists w path =
     (case resolve w path of
        None \<Rightarrow> False
      | Some l \<Rightarrow> l \<in> dir_set w \<or> file_at w l \<noteq> None)"

definition write_file :: "string \<Rightarrow> string \<Rightarrow> world \<Rightarrow> exn + world" where
  \<comment> \<open>\<^verbatim>\<open>with open(path, "w") as fp: fp.write(text)\<close>\<close>
  "write_file path text w =
     (case resolve w path of
        None \<Rightarrow> Inl OSError
      | Some l \<Rightarrow>
          if l \<in> dir_set w then Inl OSError
          else Inr (w\<lparr>file_at := (file_at w)(l \<mapsto> text), written := written w @ [l]\<rparr>))"

fun universal_newlines :: "string \<Rightarrow> string" where
  \<comment> \<open>text mode reading: \<^verbatim>\<open>\r\n\<close> and \<^verbatim>\<open>\r\<close> are read as \<^verbatim>\<open>\n\<close>\<close>
  "universal_newlines [] = []"
| "universal_newlines [c] = (if c = CHR 0x0D then [CHR 0x0A] else [c])"
| "universal_newlines (c # d # cs) =
     (if c = CHR 0x0D then
        (if d = CHR 0x0A then CHR 0x0A # universal_newlines cs
         else CHR 0x0A # universal_newlines (d # cs))
      else c # universal_newlines (d # cs))"

definition read_file :: "string \<Rightarrow> world \<Rightarrow> exn + string" where
  \<comment> \<open>\<^verbatim>\<open>with open(path, "r") as fp: fp.read()\<close>\<close>
  "read_file path w =
     (case resolve w path of
        None \<Rightarrow> Inl OSError
      | Some l \<Rightarrow>
          (case file_at w l of
             None \<Rightarrow> Inl OSError
           | Some stored \<Rightarrow> Inr (universal_newlines stored)))"

fun make_walk :: "world \<Rightarrow> loc \<Rightarrow> string list \<Rightarrow> bool \<times> world" where
  \<comment> \<open>the directories \<^verbatim>\<open>os.makedirs\<close> creates on its way, until a file stands in the way\<close>
  "make_walk w cur [] = (True, w)"
| "make_walk w cur (c # cs) =
     (let next = step cur c
      in if next \<in> dir_set w then make_walk w next cs
         else if file_at w next \<noteq> None then (False, w)
         else make_walk (w\<lparr>dir_set := insert next (dir_set w)\<rparr>) next cs)"

definition makedirs :: "string \<Rightarrow> world \<Rightarrow> exn option \<times> world" where
  \<comment> \<open>\<^verbatim>\<open>os.makedirs(path, exist_ok=True)\<close>: the exception, if any, and the world it leaves\<close>
  "makedirs path w =
     (if path = [] then (Some OSError, w)
      else (case make_walk w (start w path) (split_on CHR ''/'' path) of
              (True, w') \<Rightarrow> (None, w')
            | (False, w') \<Rightarrow> (Some OSError, w')))"

section \<open>The three outputs\<close>

text \<open>
  \<^verbatim>\<open>invocations\<close> is a dictionary from file name to a list of invocations; its keys keep
  the order in which they were first stored, which is the order of the last loop of
  \<^verbatim>\<open>main\<close>.
\<close>

fun add_invocation :: "(string \<times> string list) list \<Rightarrow> string \<Rightarrow> string \<Rightarrow> (string \<times> string list) list" where
  \<comment> \<open>lines 204 to 207\<close>
  "add_invocation [] fn invo = [(fn, [invo])]"
| "add_invocation ((k, invo_list) # rest) fn invo =
     (if k = fn then (k, invo_list @ [invo]) # rest
      else (k, invo_list) # add_invocation rest fn invo)"

fun collect :: "syscall list
    \<Rightarrow> (string \<times> string list) list \<times> string list \<times> string list \<times> string list
    \<Rightarrow> (string \<times> string list) list \<times> string list \<times> string list \<times> string list" where
  \<comment> \<open>the loop of lines 203 to 210 over \<^verbatim>\<open>invocations, ids, table_entries, handlers\<close>\<close>
  "collect [] acc = acc"
| "collect (s # syscalls) (invocations, ids, table_entries, handlers) =
     collect syscalls
       (add_invocation invocations (sc_fn s) (sc_invocation s),
        ids @ [sc_sys_id s],
        table_entries @ [sc_table_entry s],
        handlers @ [sc_handler s])"

definition dispatch_text :: "string list \<Rightarrow> string list \<Rightarrow> string" where
  \<comment> \<open>lines 213 to 217: the sentinel entry is appended, then the template is filled\<close>
  "dispatch_text table_entries handlers =
     (let table_entries' = table_entries @ [''[K_SYSCALL_BAD] = _handler_bad_syscall''];
          weak_defines = concat (map weak_template handlers)
      in table_template weak_defines (join ('','' @ [CHR 0x0A, CHR 0x09]) table_entries'))"

definition listing_ids :: "string list \<Rightarrow> string list" where
  \<comment> \<open>lines 220 and 221\<close>
  "listing_ids ids = sort ids @ [''K_SYSCALL_BAD'', ''K_SYSCALL_LIMIT'']"

definition listing_text :: "string list \<Rightarrow> string list \<Rightarrow> string" where
  \<comment> \<open>lines 220 to 223\<close>
  "listing_text ids handlers =
     (let handler_defines = concat (map handler_template handlers)
      in list_template (join ('','' @ [CHR 0x0A, CHR 0x09]) (listing_ids ids)) handler_defines)"

definition header_text :: "string list \<Rightarrow> string" where
  \<comment> \<open>line 229\<close>
  "header_text invo_list = syscall_template (join [CHR 0x0A, CHR 0x0A] invo_list)"

definition write_header :: "string \<Rightarrow> world \<Rightarrow> string \<times> string list \<Rightarrow> exn + world" where
  \<comment> \<open>one round of the loop of lines 226 to 241\<close>
  "write_header base_output w item =
     (case item of (fn, invo_list) \<Rightarrow>
        (let out_fn = path_join base_output fn;
             header = header_text invo_list
         in if path_exists w out_fn then
              (case read_file out_fn w of
                 Inl e \<Rightarrow> Inl e
               | Inr old_data \<Rightarrow>
                   if old_data = header then Inr w else write_file out_fn header w)
            else write_file out_fn header w))"

fun write_headers :: "string \<Rightarrow> world \<Rightarrow> (string \<times> string list) list \<Rightarrow> exn option \<times> world" where
  \<comment> \<open>the loop of lines 226 to 241, ended by the first exception\<close>
  "write_headers base_output w [] = (None, w)"
| "write_headers base_output w (item # items) =
     (case write_header base_output w item of
        Inl e \<Rightarrow> (Some e, w)
      | Inr w' \<Rightarrow> write_headers base_output w' items)"

definition main :: "walk \<Rightarrow> string \<Rightarrow> string \<Rightarrow> world \<Rightarrow> exn option \<times> world" where
  \<comment> \<open>\<^verbatim>\<open>main\<close> with \<^verbatim>\<open>args.include\<close> walked, \<^verbatim>\<open>args.syscall_dispatch\<close> and \<^verbatim>\<open>args.base_output\<close>:
      the exception that ends the run, if any, and the world it leaves\<close>
  "main include syscall_dispatch base_output w =
     (case analyze_headers include of
        Inl (diag, e) \<Rightarrow> (Some e, w\<lparr>err := err w @ diag\<rparr>)
      | Inr syscalls \<Rightarrow>
          (case collect syscalls ([], [], [], []) of
             (invocations, ids, table_entries, handlers) \<Rightarrow>
               (case write_file syscall_dispatch (dispatch_text table_entries handlers) w of
                  Inl e \<Rightarrow> (Some e, w)
                | Inr w1 \<Rightarrow>
                    (let w2 = w1\<lparr>out := out w1 @ listing_text ids handlers\<rparr>
                     in (case makedirs base_output w2 of
                           (Some e, w3) \<Rightarrow> (Some e, w3)
                         | (None, w3) \<Rightarrow> write_headers base_output w3 invocations)))))"

section \<open>Vocabulary of the statements\<close>

text \<open>
  The splitter is described below by the text without one final line feed, its trailing run
  of identifier characters and what stands before that run.
\<close>

definition chomp :: "string \<Rightarrow> string" where
  "chomp s = (if s \<noteq> [] \<and> last s = CHR 0x0A then butlast s else s)"

definition trailing_ident :: "string \<Rightarrow> string" where
  "trailing_ident s = rev (takeWhile is_ident (rev s))"

definition before_ident :: "string \<Rightarrow> string" where
  "before_ident s = rev (dropWhile is_ident (rev s))"

text \<open>The result of \<^verbatim>\<open>typename_regex.match\<close> in closed form.\<close>

definition tm_spec :: "string \<Rightarrow> string \<Rightarrow> (string \<times> string) option" where
  "tm_spec pre s =
     (let b = chomp s; i = trailing_ident b; p = before_ident b
      in if i = [] \<or> CHR 0x0A \<in> set p then None else Some (pre @ p, i))"

text \<open>The decimal digits, and the two optional suffixes of a macro name.\<close>

definition is_digit :: "char \<Rightarrow> bool" where
  "is_digit c = (let n = (of_char c :: nat) in 48 \<le> n \<and> n \<le> 57)"

definition suffix_of :: "bool \<Rightarrow> bool \<Rightarrow> string" where
  "suffix_of is_void is_inline =
     (if is_void then ''_VOID'' else []) @ (if is_inline then ''_INLINE'' else [])"

text \<open>
  The dictionary \<^verbatim>\<open>invocations\<close> that \<^verbatim>\<open>main\<close> builds from the records, the list stored
  under a key (empty when the key is absent) and the path of the header of an item of the
  dictionary.
\<close>

definition invocations_of :: "syscall list \<Rightarrow> (string \<times> string list) list" where
  "invocations_of syscalls = fst (collect syscalls ([], [], [], []))"

definition lookup_list :: "(string \<times> string list) list \<Rightarrow> string \<Rightarrow> string list" where
  "lookup_list invocations fn = (case map_of invocations fn of None \<Rightarrow> [] | Some l \<Rightarrow> l)"

definition header_path :: "string \<Rightarrow> string \<times> string list \<Rightarrow> string" where
  "header_path base_output item = path_join base_output (fst item)"

text \<open>
  The location a path leads to, whether or not the directories on its way exist (when they
  do, it is the location the path names); the paths that can be opened for writing; and
  the walks as \<^verbatim>\<open>os.walk\<close> and text mode reading yield them, with no path separator in a file
  name and no carriage return in a text.
\<close>

definition place :: "world \<Rightarrow> string \<Rightarrow> loc" where
  "place w path = foldl step (start w path) (split_on CHR ''/'' path)"

definition writable :: "world \<Rightarrow> string \<Rightarrow> bool" where
  "writable w path = (case resolve w path of None \<Rightarrow> False | Some l \<Rightarrow> l \<notin> dir_set w)"

definition as_walked :: "walk \<Rightarrow> bool" where
  "as_walked include =
     (\<forall>(root, files)\<in>set include. \<forall>(fn, text)\<in>set files.
        CHR ''/'' \<notin> set fn \<and> CHR 0x0D \<notin> set text)"

text \<open>The files a walk has analyzed: those the test of line 94 keeps, in the order of the visit.\<close>

definition scanned :: "walk \<Rightarrow> (string \<times> string) list" where
  "scanned include =
     concat (map (\<lambda>(root, files). filter (\<lambda>(fn, text). \<not> skipped root fn) files) include)"

section \<open>Properties of the splitter\<close>

lemma before_trailing: "before_ident s @ trailing_ident s = s"
  unfolding before_ident_def trailing_ident_def
  by (simp flip: rev_append)

lemma trailing_all_ident: "\<forall>c\<in>set (trailing_ident s). is_ident c"
  unfolding trailing_ident_def by (auto dest: set_takeWhileD)

lemma before_last: "before_ident s = [] \<or> \<not> is_ident (last (before_ident s))"
proof (cases "dropWhile is_ident (rev s)")
  case Nil
  then show ?thesis by (simp add: before_ident_def)
next
  case (Cons x xs)
  then have "\<not> is_ident x" using hd_dropWhile [of is_ident "rev s"] by simp
  then show ?thesis using Cons by (simp add: before_ident_def)
qed

lemma split_unique:
  assumes "\<forall>c\<in>set i. is_ident c" and "p = [] \<or> \<not> is_ident (last p)"
  shows "before_ident (p @ i) = p \<and> trailing_ident (p @ i) = i"
proof -
  have t: "takeWhile is_ident (rev p) = []"
    using assms(2) by (cases p rule: rev_cases) auto
  have d: "dropWhile is_ident (rev p) = rev p"
    using assms(2) by (cases p rule: rev_cases) auto
  have "takeWhile is_ident (rev i @ rev p) = rev i @ takeWhile is_ident (rev p)"
    by (rule takeWhile_append2) (use assms(1) in simp)
  moreover have "dropWhile is_ident (rev i @ rev p) = dropWhile is_ident (rev p)"
    by (rule dropWhile_append2) (use assms(1) in simp)
  ultimately show ?thesis
    by (simp add: before_ident_def trailing_ident_def t d)
qed

lemma not_ident_newline: "\<not> is_ident (CHR 0x0A)"
  by (simp add: is_ident_def)

lemma chomp_Cons: "cs \<noteq> [] \<Longrightarrow> chomp (c # cs) = c # chomp cs"
  by (simp add: chomp_def)

lemma chomp_cases: "cs = chomp cs \<or> cs = chomp cs @ [CHR 0x0A]"
  by (cases cs rule: rev_cases) (auto simp add: chomp_def)

lemma tm_accept:
  assumes "run \<noteq> []" "\<forall>c\<in>set run. is_ident c" "at_dollar after"
  shows "tm_spec pre (run @ after) = Some (pre, run)"
proof -
  have "last run \<noteq> CHR 0x0A" using assms(1,2) not_ident_newline last_in_set by metis
  then have "chomp (run @ after) = run"
    using assms(1,3) by (auto simp add: chomp_def at_dollar_def)
  moreover have "before_ident ([] @ run) = [] \<and> trailing_ident ([] @ run) = run"
    using assms(2) by (intro split_unique) simp_all
  ultimately show ?thesis using assms(1) by (simp add: tm_spec_def)
qed

lemma all_ident_accept:
  assumes "\<forall>x\<in>set (c # b). is_ident x" and "cs = b \<or> cs = b @ [CHR 0x0A]"
  shows "takeWhile is_ident (c # cs) \<noteq> [] \<and> at_dollar (dropWhile is_ident (c # cs))"
proof -
  have tw: "takeWhile is_ident (c # b) = c # b"
    using assms(1) by (simp only: takeWhile_eq_all_conv)
  have dw: "dropWhile is_ident (c # b) = []"
    using assms(1) by (simp only: dropWhile_eq_Nil_conv)
  have twn: "takeWhile is_ident ((c # b) @ [CHR 0x0A]) = c # b"
    using assms(1) not_ident_newline by (subst takeWhile_append2) auto
  have dwn: "dropWhile is_ident ((c # b) @ [CHR 0x0A]) = [CHR 0x0A]"
    using assms(1) not_ident_newline by (subst dropWhile_append2) auto
  from assms(2) show ?thesis
  proof
    assume "cs = b"
    then show ?thesis by (simp only: tw dw at_dollar_def) simp
  next
    assume "cs = b @ [CHR 0x0A]"
    then have "c # cs = (c # b) @ [CHR 0x0A]" by simp
    then show ?thesis by (simp only: twn dwn at_dollar_def) simp
  qed
qed

lemma typename_match_spec: "typename_match pre s = tm_spec pre s"
proof (induction pre s rule: typename_match.induct)
  case (1 pre)
  show ?case by (simp add: tm_spec_def chomp_def trailing_ident_def)
next
  case (2 pre c cs)
  let ?run = "takeWhile is_ident (c # cs)" and ?after = "dropWhile is_ident (c # cs)"
  show ?case
  proof (cases "?run \<noteq> [] \<and> at_dollar ?after")
    case True
    have "\<forall>x\<in>set ?run. is_ident x" by (auto dest: set_takeWhileD simp del: takeWhile.simps)
    then have "tm_spec pre (?run @ ?after) = Some (pre, ?run)"
      using True by (intro tm_accept) simp_all
    then have "tm_spec pre (c # cs) = Some (pre, ?run)" by (simp only: takeWhile_dropWhile_id)
    moreover have "typename_match pre (c # cs) = Some (pre, ?run)"
      using True by (simp add: Let_def del: takeWhile.simps dropWhile.simps)
    ultimately show ?thesis by simp
  next
    case False
    show ?thesis
    proof (cases "cs = []")
      case True
      have "\<not> is_ident c" using False True by (auto simp add: at_dollar_def split: if_splits)
      then have "tm_spec pre [c] = None"
        by (simp add: tm_spec_def chomp_def trailing_ident_def)
      moreover have "typename_match pre [c] = None"
        using \<open>\<not> is_ident c\<close> by simp
      ultimately show ?thesis using True by simp
    next
      case nonempty: False
      define b where "b = chomp cs"
      define p where "p = before_ident b"
      define i where "i = trailing_ident b"
      have b: "chomp (c # cs) = c # b" using nonempty by (simp add: chomp_Cons b_def)
      have pi: "b = p @ i" by (simp add: p_def i_def before_trailing)
      have iid: "\<forall>x\<in>set i. is_ident x" by (simp add: i_def trailing_all_ident)
      have "c # p = [] \<or> \<not> is_ident (last (c # p))"
      proof (cases "p = []")
        case True
        have "\<not> is_ident c"
        proof
          assume "is_ident c"
          then have "\<forall>x\<in>set (c # b). is_ident x" using iid pi True by simp
          moreover have "cs = b \<or> cs = b @ [CHR 0x0A]" unfolding b_def by (rule chomp_cases)
          ultimately show False using all_ident_accept False by blast
        qed
        then show ?thesis using True by simp
      next
        case False
        then show ?thesis using before_last [of b] by (simp add: p_def)
      qed
      then have "before_ident ((c # p) @ i) = c # p \<and> trailing_ident ((c # p) @ i) = i"
        using iid by (intro split_unique) simp_all
      then have parts: "before_ident (c # b) = c # p" "trailing_ident (c # b) = i"
        using pi by simp_all
      have spec: "tm_spec pre (c # cs) =
          (if i = [] \<or> c = CHR 0x0A \<or> CHR 0x0A \<in> set p then None else Some (pre @ c # p, i))"
        by (auto simp add: tm_spec_def b parts)
      show ?thesis
      proof (cases "c = CHR 0x0A")
        case True
        then have "typename_match pre (c # cs) = None"
          using False by (simp add: Let_def del: takeWhile.simps dropWhile.simps)
        then show ?thesis using spec True by simp
      next
        case notnl: False
        have "typename_match pre (c # cs) = typename_match (pre @ [c]) cs"
          using False notnl by (auto simp add: Let_def simp del: takeWhile.simps dropWhile.simps)
        also have "\<dots> = tm_spec (pre @ [c]) cs"
          using "2.IH" False notnl by (auto simp del: takeWhile.simps dropWhile.simps)
        also have "\<dots> = (if i = [] \<or> CHR 0x0A \<in> set p then None else Some (pre @ c # p, i))"
          by (simp add: tm_spec_def b_def [symmetric] p_def [symmetric] i_def [symmetric])
        finally show ?thesis using spec notnl by simp
      qed
    qed
  qed
qed

lemma typename_match_ident:
  "typename_match pre s = Some (m0, m1) \<Longrightarrow> m1 \<noteq> [] \<and> (\<forall>c\<in>set m1. is_ident c)"
proof (induction pre s rule: typename_match.induct)
  case (1 pre)
  then show ?case by simp
next
  case (2 pre c cs)
  show ?case
  proof (cases "takeWhile is_ident (c # cs) \<noteq> [] \<and> at_dollar (dropWhile is_ident (c # cs))")
    case True
    then have "m1 = takeWhile is_ident (c # cs)"
      using "2.prems" by (simp add: Let_def del: takeWhile.simps dropWhile.simps)
    then show ?thesis using True by (auto dest: set_takeWhileD simp del: takeWhile.simps)
  next
    case False
    then have "c \<noteq> CHR 0x0A" and "typename_match (pre @ [c]) cs = Some (m0, m1)"
      using "2.prems" by (auto simp add: Let_def split: if_splits simp del: takeWhile.simps dropWhile.simps)
    then show ?thesis using "2.IH" False by (simp add: Let_def del: takeWhile.simps dropWhile.simps)
  qed
qed

lemma typename_split_ident:
  "typename_split item = Inr (t, name) \<Longrightarrow> name \<noteq> [] \<and> (\<forall>c\<in>set name. is_ident c)"
  unfolding typename_split_def
  by (auto split: if_splits option.splits dest: typename_match_ident)

section \<open>Properties of the macro name\<close>

lemma digit_char_is_digit: "n < 10 \<Longrightarrow> is_digit (digit_char n)"
  by (simp add: is_digit_def)

lemma digit_char_inj: "n < 10 \<Longrightarrow> m < 10 \<Longrightarrow> digit_char n = digit_char m \<Longrightarrow> n = m"
proof -
  assume a: "n < 10" "m < 10" "digit_char n = digit_char m"
  then have "(of_char (digit_char n) :: nat) = of_char (digit_char m)" by simp
  then show "n = m" using a(1,2) by simp
qed

lemma str_of_nat_digits: "\<forall>c\<in>set (str_of_nat n). is_digit c"
proof (induction n rule: str_of_nat.induct)
  case (1 n)
  show ?case
  proof (cases "n < 10")
    case True
    then show ?thesis using digit_char_is_digit [of n] by (subst str_of_nat.simps) simp
  next
    case False
    have "n mod 10 < 10" by simp
    then have "is_digit (digit_char (n mod 10))" by (rule digit_char_is_digit)
    then show ?thesis using 1 False by (subst str_of_nat.simps) (simp del: digit_char.simps)
  qed
qed

lemma str_of_nat_length: "length (str_of_nat n) = 1 \<longleftrightarrow> n < 10"
proof (cases "n < 10")
  case True
  then show ?thesis by (subst str_of_nat.simps) simp
next
  case False
  have "str_of_nat (n div 10) \<noteq> []" by (subst str_of_nat.simps) simp
  then show ?thesis using False by (subst str_of_nat.simps) simp
qed

lemma str_of_nat_inj: "str_of_nat n = str_of_nat m \<Longrightarrow> n = m"
proof (induction n arbitrary: m rule: str_of_nat.induct)
  case (1 n)
  have len: "n < 10 \<longleftrightarrow> m < 10"
    using "1.prems" str_of_nat_length [of n] str_of_nat_length [of m] by simp
  show ?case
  proof (cases "n < 10")
    case True
    then have "m < 10" using len by simp
    have "[digit_char n] = [digit_char m]"
      using "1.prems" True \<open>m < 10\<close> by (simp add: str_of_nat.simps [of n] str_of_nat.simps [of m] del: digit_char.simps)
    then show ?thesis using digit_char_inj True \<open>m < 10\<close> by blast
  next
    case False
    then have m: "\<not> m < 10" using len by simp
    have "str_of_nat (n div 10) @ [digit_char (n mod 10)] = str_of_nat (m div 10) @ [digit_char (m mod 10)]"
      using "1.prems" False m by (simp add: str_of_nat.simps [of n] str_of_nat.simps [of m] del: digit_char.simps)
    then have a: "str_of_nat (n div 10) = str_of_nat (m div 10)"
      and b: "digit_char (n mod 10) = digit_char (m mod 10)" by simp_all
    have "n div 10 = m div 10" using "1.IH" False a by simp
    moreover have "n mod 10 = m mod 10" using b by (intro digit_char_inj) simp_all
    ultimately show ?thesis by (metis div_mult_mod_eq)
  qed
qed

lemma suffix_of_inj: "suffix_of v i = suffix_of v' i' \<Longrightarrow> v = v' \<and> i = i'"
  by (cases v; cases i; cases v'; cases i') (simp_all add: suffix_of_def)

lemma suffix_of_head: "takeWhile is_digit (suffix_of v i) = []"
  by (cases v; cases i) (simp_all add: suffix_of_def is_digit_def)

lemma digits_then_suffix:
  "takeWhile is_digit (str_of_nat n @ suffix_of v i) = str_of_nat n"
proof -
  have "takeWhile is_digit (str_of_nat n @ suffix_of v i)
        = str_of_nat n @ takeWhile is_digit (suffix_of v i)"
    by (rule takeWhile_append2) (use str_of_nat_digits in blast)
  then show ?thesis by (simp add: suffix_of_head)
qed

lemma macro_name_suffix: "macro_name n v i = ''K_SYSCALL_DECLARE'' @ str_of_nat n @ suffix_of v i"
  by (simp add: macro_name_def suffix_of_def)

lemma macro_name_inj:
  assumes "macro_name n v i = macro_name n' v' i'"
  shows "n = n' \<and> v = v' \<and> i = i'"
proof -
  have e: "str_of_nat n @ suffix_of v i = str_of_nat n' @ suffix_of v' i'"
    using assms unfolding macro_name_suffix by simp
  then have "takeWhile is_digit (str_of_nat n @ suffix_of v i)
             = takeWhile is_digit (str_of_nat n' @ suffix_of v' i')" by simp
  then have s: "str_of_nat n = str_of_nat n'" by (simp only: digits_then_suffix)
  then have "suffix_of v i = suffix_of v' i'" using e by simp
  then show ?thesis using s str_of_nat_inj suffix_of_inj by blast
qed

lemma macro_name_no_paren: "CHR ''('' \<notin> set (macro_name n v i)"
proof -
  have "CHR ''('' \<notin> set (str_of_nat n)"
    using str_of_nat_digits [of n] by (auto simp add: is_digit_def)
  then show ?thesis by (cases v; cases i) (simp_all add: macro_name_def)
qed

section \<open>Properties of the argument list\<close>

lemma split_on_nonempty: "split_on c s \<noteq> []"
  by (induction s) (auto split: list.splits)

lemma split_on_join: "join [c] (split_on c s) = s"
proof (induction s)
  case Nil
  show ?case by simp
next
  case (Cons x xs)
  obtain p ps where ps: "split_on c xs = p # ps"
    using split_on_nonempty [of c xs] by (cases "split_on c xs") auto
  show ?case
  proof (cases "x = c")
    case True
    then show ?thesis using Cons ps by simp
  next
    case False
    have "join [c] ((x # p) # ps) = x # join [c] (p # ps)"
      by (cases ps) simp_all
    then show ?thesis using False Cons ps by simp
  qed
qed

lemma split_on_no_sep: "\<forall>p\<in>set (split_on c s). c \<notin> set p"
  by (induction s) (auto split: list.splits)

lemma split_on_length: "length (split_on c s) = Suc (count_list s c)"
  by (induction s) (auto split: list.splits)

lemma split_each_Inr:
  "split_each ps = Inr rs \<longleftrightarrow> map (\<lambda>a. typename_split (strip a)) ps = map Inr rs"
proof (induction ps arbitrary: rs)
  case Nil
  show ?case by auto
next
  case (Cons a ps)
  show ?case
  proof (cases "typename_split (strip a)")
    case (Inl e)
    then show ?thesis by (cases rs) auto
  next
    case (Inr p)
    show ?thesis
    proof (cases "split_each ps")
      case (Inl e)
      have "map (\<lambda>a. typename_split (strip a)) ps \<noteq> map Inr rs'" for rs'
        using Cons.IH [of rs'] Inl by simp
      then show ?thesis using Inr Inl by (cases rs) auto
    next
      case right: (Inr qs)
      then have "map (\<lambda>a. typename_split (strip a)) ps = map Inr qs"
        using Cons.IH [of qs] by simp
      then show ?thesis using Inr right by (cases rs) (auto simp add: inj_map_eq_map [of Inr, simplified])
    qed
  qed
qed

lemma split_each_Inl:
  "split_each ps = Inl e \<longleftrightarrow>
     (\<exists>pre a post. ps = pre @ a # post \<and> typename_split (strip a) = Inl e
        \<and> (\<forall>b\<in>set pre. \<exists>p. typename_split (strip b) = Inr p))"
proof (induction ps)
  case Nil
  show ?case by simp
next
  case (Cons x ps)
  show ?case
  proof (cases "typename_split (strip x)")
    case (Inl e')
    have "split_each (x # ps) = Inl e'" using Inl by simp
    moreover have "(\<exists>pre a post. x # ps = pre @ a # post \<and> typename_split (strip a) = Inl e
        \<and> (\<forall>b\<in>set pre. \<exists>p. typename_split (strip b) = Inr p)) \<longleftrightarrow> e = e'"
    proof
      assume "\<exists>pre a post. x # ps = pre @ a # post \<and> typename_split (strip a) = Inl e
        \<and> (\<forall>b\<in>set pre. \<exists>p. typename_split (strip b) = Inr p)"
      then obtain pre a post where d: "x # ps = pre @ a # post" "typename_split (strip a) = Inl e"
        "\<forall>b\<in>set pre. \<exists>p. typename_split (strip b) = Inr p" by blast
      show "e = e'"
      proof (cases pre)
        case Nil
        then show ?thesis using d Inl by simp
      next
        case (Cons y ys)
        then have "x \<in> set pre" using d(1) by simp
        then show ?thesis using d(3) Inl by auto
      qed
    next
      assume "e = e'"
      then have "x # ps = [] @ x # ps \<and> typename_split (strip x) = Inl e
        \<and> (\<forall>b\<in>set []. \<exists>p. typename_split (strip b) = Inr p)" using Inl by simp
      then show "\<exists>pre a post. x # ps = pre @ a # post \<and> typename_split (strip a) = Inl e
        \<and> (\<forall>b\<in>set pre. \<exists>p. typename_split (strip b) = Inr p)" by blast
    qed
    ultimately show ?thesis by auto
  next
    case (Inr p)
    have "split_each (x # ps) = Inl e \<longleftrightarrow> split_each ps = Inl e"
      using Inr by (auto split: sum.splits)
    moreover have "(\<exists>pre a post. x # ps = pre @ a # post \<and> typename_split (strip a) = Inl e
        \<and> (\<forall>b\<in>set pre. \<exists>p. typename_split (strip b) = Inr p))
      \<longleftrightarrow> (\<exists>pre a post. ps = pre @ a # post \<and> typename_split (strip a) = Inl e
        \<and> (\<forall>b\<in>set pre. \<exists>p. typename_split (strip b) = Inr p))" (is "?L \<longleftrightarrow> ?R")
    proof
      assume ?L
      then obtain pre a post where d: "x # ps = pre @ a # post" "typename_split (strip a) = Inl e"
        "\<forall>b\<in>set pre. \<exists>p. typename_split (strip b) = Inr p" by blast
      show ?R
      proof (cases pre)
        case Nil
        then show ?thesis using d Inr by simp
      next
        case (Cons y ys)
        then have "ps = ys @ a # post" and "\<forall>b\<in>set ys. \<exists>p. typename_split (strip b) = Inr p"
          using d by simp_all
        then show ?thesis using d(2) by blast
      qed
    next
      assume ?R
      then obtain pre a post where d: "ps = pre @ a # post" "typename_split (strip a) = Inl e"
        "\<forall>b\<in>set pre. \<exists>p. typename_split (strip b) = Inr p" by blast
      then have "x # ps = (x # pre) @ a # post"
        and "\<forall>b\<in>set (x # pre). \<exists>p. typename_split (strip b) = Inr p"
        using Inr by simp_all
      then show ?L using d(2) by blast
    qed
    ultimately show ?thesis using Cons.IH by simp
  qed
qed

section \<open>Properties of the aggregation\<close>

lemma add_invocation_keys:
  "map fst (add_invocation invs fn x) =
     (if fn \<in> set (map fst invs) then map fst invs else map fst invs @ [fn])"
  by (induction invs fn x rule: add_invocation.induct) auto

lemma add_invocation_distinct:
  "distinct (map fst invs) \<Longrightarrow> distinct (map fst (add_invocation invs fn x))"
  by (simp add: add_invocation_keys)

lemma add_invocation_lookup:
  "distinct (map fst invs) \<Longrightarrow>
   lookup_list (add_invocation invs fn x) k =
     (if k = fn then lookup_list invs fn @ [x] else lookup_list invs k)"
  by (induction invs fn x rule: add_invocation.induct)
     (auto simp add: lookup_list_def split: option.splits)

lemma collect_lists:
  "snd (collect syscalls (invs, ids, entries, handlers)) =
     (ids @ map sc_sys_id syscalls, entries @ map sc_table_entry syscalls,
      handlers @ map sc_handler syscalls)"
  by (induction syscalls arbitrary: invs ids entries handlers) simp_all

lemma add_invocation_key_set:
  "fst ` set (add_invocation invs fn x) = insert fn (fst ` set invs)"
  by (induction invs fn x rule: add_invocation.induct) auto

lemma collect_keys:
  "fst ` set (fst (collect syscalls (invs, ids, entries, handlers)))
     = fst ` set invs \<union> sc_fn ` set syscalls"
  by (induction syscalls arbitrary: invs ids entries handlers)
     (simp_all add: add_invocation_key_set)

lemma collect_distinct:
  "distinct (map fst invs) \<Longrightarrow>
   distinct (map fst (fst (collect syscalls (invs, ids, entries, handlers))))"
  by (induction syscalls arbitrary: invs ids entries handlers)
     (simp_all add: add_invocation_distinct)

lemma collect_lookup:
  "distinct (map fst invs) \<Longrightarrow>
   lookup_list (fst (collect syscalls (invs, ids, entries, handlers))) k =
     lookup_list invs k @ map sc_invocation (filter (\<lambda>r. sc_fn r = k) syscalls)"
proof (induction syscalls arbitrary: invs ids entries handlers)
  case Nil
  show ?case by simp
next
  case (Cons s syscalls)
  have "distinct (map fst (add_invocation invs (sc_fn s) (sc_invocation s)))"
    using Cons.prems by (rule add_invocation_distinct)
  then show ?case
    using Cons.IH Cons.prems by (simp add: add_invocation_lookup)
qed

lemma invocations_of_distinct: "distinct (map fst (invocations_of syscalls))"
  unfolding invocations_of_def by (rule collect_distinct) simp

lemma invocations_of_keys: "fst ` set (invocations_of syscalls) = sc_fn ` set syscalls"
  unfolding invocations_of_def by (simp add: collect_keys)

lemma invocations_of_entry:
  assumes "(fn, l) \<in> set (invocations_of syscalls)"
  shows "l = map sc_invocation (filter (\<lambda>r. sc_fn r = fn) syscalls)"
proof -
  have "map_of (invocations_of syscalls) fn = Some l"
    using assms invocations_of_distinct by simp
  then have "lookup_list (invocations_of syscalls) fn = l" by (simp add: lookup_list_def)
  moreover have "lookup_list (invocations_of syscalls) fn
      = lookup_list [] fn @ map sc_invocation (filter (\<lambda>r. sc_fn r = fn) syscalls)"
    unfolding invocations_of_def by (rule collect_lookup) simp
  ultimately show ?thesis by (simp add: lookup_list_def)
qed

lemma collect_eq:
  "collect syscalls ([], [], [], []) =
     (invocations_of syscalls, map sc_sys_id syscalls, map sc_table_entry syscalls,
      map sc_handler syscalls)"
  using collect_lists [of syscalls "[]" "[]" "[]" "[]"]
  by (simp add: invocations_of_def prod_eq_iff)

lemma main_ok:
  assumes "analyze_headers include = Inr syscalls"
  shows "main include d b w =
     (case write_file d (dispatch_text (map sc_table_entry syscalls) (map sc_handler syscalls)) w of
        Inl e \<Rightarrow> (Some e, w)
      | Inr w1 \<Rightarrow>
          (case makedirs b
                  (w1\<lparr>out := out w1 @ listing_text (map sc_sys_id syscalls) (map sc_handler syscalls)\<rparr>) of
             (Some e, w3) \<Rightarrow> (Some e, w3)
           | (None, w3) \<Rightarrow> write_headers b w3 (invocations_of syscalls)))"
  using assms by (simp add: main_def collect_eq Let_def split: sum.splits)

section \<open>Properties of the file system\<close>

subsection \<open>Locations\<close>

lemma walk_place: "walk ds cur cs = Some l \<Longrightarrow> l = foldl step cur cs"
  by (induction cs arbitrary: cur) (auto split: if_splits)

lemma walk_mono: "ds \<subseteq> ds' \<Longrightarrow> walk ds cur cs = Some l \<Longrightarrow> walk ds' cur cs = Some l"
  by (induction cs arbitrary: cur) (auto split: if_splits)

lemma resolve_place: "resolve w path = Some l \<Longrightarrow> l = place w path"
  unfolding resolve_def place_def by (auto split: if_splits dest: walk_place)

lemma resolve_same:
  "dir_set v = dir_set w \<Longrightarrow> cwd v = cwd w \<Longrightarrow> resolve v path = resolve w path"
  by (simp add: resolve_def start_def)

lemma resolve_mono:
  "dir_set w \<subseteq> dir_set v \<Longrightarrow> cwd v = cwd w \<Longrightarrow> resolve w path = Some l \<Longrightarrow>
   resolve v path = Some l"
  unfolding resolve_def start_def by (auto split: if_splits intro: walk_mono)

lemma place_same: "cwd v = cwd w \<Longrightarrow> place v path = place w path"
  by (simp add: place_def start_def)

subsection \<open>Writing a file\<close>

lemma write_file_Inr:
  "write_file path t w = Inr w' \<longleftrightarrow>
     (writable w path
      \<and> w' = w\<lparr>file_at := (file_at w)(place w path \<mapsto> t), written := written w @ [place w path]\<rparr>)"
  unfolding write_file_def writable_def
  by (auto split: option.splits dest: resolve_place)

lemma write_file_Inl: "write_file path t w = Inl e \<longleftrightarrow> (\<not> writable w path \<and> e = OSError)"
  unfolding write_file_def writable_def
  by (auto split: option.splits)

lemma writable_resolve: "writable w path \<Longrightarrow> resolve w path = Some (place w path)"
  unfolding writable_def by (auto split: option.splits dest: resolve_place)

lemma writable_not_dir: "writable w path \<Longrightarrow> place w path \<notin> dir_set w"
  unfolding writable_def by (auto split: option.splits dest: resolve_place)

subsection \<open>Creating directories\<close>

lemma make_walk_frame:
  "make_walk w cur cs = (ok, w') \<Longrightarrow>
   file_at w' = file_at w \<and> cwd w' = cwd w \<and> out w' = out w \<and> err w' = err w
   \<and> written w' = written w \<and> dir_set w \<subseteq> dir_set w'
   \<and> (\<forall>l\<in>dir_set w' - dir_set w. file_at w l = None)"
proof (induction w cur cs arbitrary: ok w' rule: make_walk.induct)
  case (1 w cur)
  then show ?case by simp
next
  case (2 w cur c cs)
  let ?next = "step cur c"
  show ?case
  proof (cases "?next \<in> dir_set w")
    case True
    then have "make_walk w ?next cs = (ok, w')" using "2.prems" by (simp add: Let_def)
    then show ?thesis using "2.IH"(1) True by simp
  next
    case False
    show ?thesis
    proof (cases "file_at w ?next \<noteq> None")
      case True
      then have "w' = w" using "2.prems" False by (simp add: Let_def)
      then show ?thesis by simp
    next
      case free: False
      let ?v = "w\<lparr>dir_set := insert ?next (dir_set w)\<rparr>"
      have "make_walk ?v ?next cs = (ok, w')"
        using "2.prems" False free by (simp add: Let_def)
      then have "file_at w' = file_at ?v \<and> cwd w' = cwd ?v \<and> out w' = out ?v \<and> err w' = err ?v
          \<and> written w' = written ?v \<and> dir_set ?v \<subseteq> dir_set w'
          \<and> (\<forall>l\<in>dir_set w' - dir_set ?v. file_at ?v l = None)"
        using "2.IH"(2) False free by simp
      then show ?thesis using free by auto
    qed
  qed
qed

lemma make_walk_again:
  "make_walk w cur cs = (True, w') \<Longrightarrow> dir_set w' \<subseteq> dir_set v \<Longrightarrow>
   make_walk v cur cs = (True, v)"
proof (induction w cur cs arbitrary: w' rule: make_walk.induct)
  case (1 w cur)
  show ?case by simp
next
  case (2 w cur c cs)
  let ?next = "step cur c"
  show ?case
  proof (cases "?next \<in> dir_set w")
    case True
    then have m: "make_walk w ?next cs = (True, w')" using "2.prems"(1) by (simp add: Let_def)
    have "dir_set w \<subseteq> dir_set w'" using make_walk_frame [OF m] by simp
    then have "?next \<in> dir_set v" using True "2.prems"(2) by auto
    moreover have "make_walk v ?next cs = (True, v)"
      using "2.IH"(1) True m "2.prems"(2) by simp
    ultimately show ?thesis by (simp add: Let_def)
  next
    case False
    then have free: "file_at w ?next = None"
      using "2.prems"(1) by (auto simp add: Let_def split: if_splits)
    let ?u = "w\<lparr>dir_set := insert ?next (dir_set w)\<rparr>"
    have m: "make_walk ?u ?next cs = (True, w')"
      using "2.prems"(1) False free by (simp add: Let_def)
    have "dir_set ?u \<subseteq> dir_set w'" using make_walk_frame [OF m] by simp
    then have "?next \<in> dir_set v" using "2.prems"(2) by auto
    moreover have "make_walk v ?next cs = (True, v)"
      using "2.IH"(2) False free m "2.prems"(2) by simp
    ultimately show ?thesis by (simp add: Let_def)
  qed
qed

lemma makedirs_frame:
  "makedirs path w = (r, w') \<Longrightarrow>
   file_at w' = file_at w \<and> cwd w' = cwd w \<and> out w' = out w \<and> err w' = err w
   \<and> written w' = written w \<and> dir_set w \<subseteq> dir_set w'
   \<and> (\<forall>l\<in>dir_set w' - dir_set w. file_at w l = None)"
proof (cases "path = []")
  case True
  then show "makedirs path w = (r, w') \<Longrightarrow> ?thesis" by (simp add: makedirs_def)
next
  case False
  assume m: "makedirs path w = (r, w')"
  obtain ok where "make_walk w (start w path) (split_on CHR ''/'' path) = (ok, w')"
    using m False by (auto simp add: makedirs_def split: prod.splits bool.splits)
  then show ?thesis by (rule make_walk_frame)
qed

lemma makedirs_again:
  assumes "makedirs path w = (None, w')" and "dir_set w' \<subseteq> dir_set v" and "cwd v = cwd w"
  shows "makedirs path v = (None, v)"
proof -
  have ne: "path \<noteq> []" using assms(1) by (auto simp add: makedirs_def)
  then have "make_walk w (start w path) (split_on CHR ''/'' path) = (True, w')"
    using assms(1) by (auto simp add: makedirs_def split: prod.splits bool.splits)
  then have "make_walk v (start w path) (split_on CHR ''/'' path) = (True, v)"
    using assms(2) by (rule make_walk_again)
  moreover have "start v path = start w path" using assms(3) by (simp add: start_def)
  ultimately show ?thesis using ne by (simp add: makedirs_def)
qed

section \<open>Properties of the records and of the walk\<close>

lemma analyze_fn_fields:
  assumes "analyze_fn (variant, func, args) fn = Inr r"
  shows "\<exists>func_type func_name args'.
           typename_split func = Inr (func_type, func_name) \<and> analyze_args args = Inr args'
           \<and> sc_fn r = fn
           \<and> sc_sys_id r = ''K_SYSCALL_'' @ upper func_name
           \<and> sc_handler r = ''_handler_'' @ func_name
           \<and> sc_table_entry r = ''[K_SYSCALL_'' @ upper func_name @ ''] = _handler_'' @ func_name"
proof -
  obtain args' where a: "analyze_args args = Inr args'"
    using assms unfolding analyze_fn_def by (auto split: sum.splits)
  then obtain func_type func_name where s: "typename_split func = Inr (func_type, func_name)"
    using assms unfolding analyze_fn_def by (auto split: sum.splits)
  show ?thesis
    using assms s a unfolding analyze_fn_def by (auto simp add: Let_def)
qed

lemma upper_no_bracket: "\<forall>c\<in>set name. is_ident c \<Longrightarrow> CHR '']'' \<notin> set (upper name)"
proof (induction name)
  case Nil
  show ?case by (simp add: upper_def)
next
  case (Cons c name)
  have "upper_char c \<noteq> CHR '']''"
  proof
    assume e: "upper_char c = CHR '']''"
    then have "(of_char (upper_char c) :: nat) = 93" by simp
    moreover have "is_ident c" using Cons.prems by simp
    ultimately show False
      by (auto simp add: upper_char_def is_ident_def Let_def split: if_splits)
  qed
  then show ?case using Cons by (simp add: upper_def)
qed

lemma table_entry_not_sentinel:
  assumes "analyze_fn g fn = Inr r"
  shows "sc_table_entry r \<noteq> ''[K_SYSCALL_BAD] = _handler_bad_syscall''"
proof
  assume e: "sc_table_entry r = ''[K_SYSCALL_BAD] = _handler_bad_syscall''"
  obtain variant func args where g: "g = (variant, func, args)" by (cases g)
  obtain func_type func_name where s: "typename_split func = Inr (func_type, func_name)"
    and t: "sc_table_entry r = ''[K_SYSCALL_'' @ upper func_name @ ''] = _handler_'' @ func_name"
    using analyze_fn_fields [OF assms [unfolded g]] by blast
  have ident: "\<forall>c\<in>set func_name. is_ident c" using typename_split_ident [OF s] by simp
  have eq: "upper func_name @ ''] = _handler_'' @ func_name = ''BAD] = _handler_bad_syscall''"
    using e t by simp
  then have "length (upper func_name @ ''] = _handler_'' @ func_name)
      = length ''BAD] = _handler_bad_syscall''" by simp
  then have len: "length func_name = 7" by (simp add: upper_def)
  have a: "take 7 (upper func_name @ ''] = _handler_'' @ func_name) = upper func_name"
    using len by (simp add: upper_def)
  have "upper func_name = take 7 (upper func_name @ ''] = _handler_'' @ func_name)"
    by (rule a [symmetric])
  also have "\<dots> = take 7 ''BAD] = _handler_bad_syscall''"
    by (simp only: eq)
  finally have "CHR '']'' \<in> set (upper func_name)" by simp
  then show False using upper_no_bracket [OF ident] by simp
qed

lemma analyze_matches_Inr:
  "analyze_matches fn gs = Inr rs \<longleftrightarrow> list_all2 (\<lambda>g r. analyze_fn g fn = Inr r) gs rs"
proof (induction gs arbitrary: rs)
  case Nil
  show ?case by auto
next
  case (Cons g gs)
  show ?case
  proof (cases "analyze_fn g fn")
    case (Inl x)
    then show ?thesis by (auto simp add: list_all2_Cons1)
  next
    case (Inr r)
    show ?thesis
    proof (cases "analyze_matches fn gs")
      case (Inl x)
      then have "\<not> list_all2 (\<lambda>g r. analyze_fn g fn = Inr r) gs rs'" for rs'
        using Cons.IH [of rs'] by simp
      then show ?thesis using Inr Inl by (auto simp add: list_all2_Cons1)
    next
      case right: (Inr qs)
      show ?thesis
        by (auto simp add: list_all2_Cons1 Cons.IH [symmetric] Inr right)
    qed
  qed
qed

lemma analyze_matches_fails:
  "isl (analyze_matches fn gs) \<longleftrightarrow> (\<exists>g\<in>set gs. isl (analyze_fn g fn))"
  by (induction gs) (auto split: sum.splits)

lemma analyze_file_Inr:
  "analyze_file fn text = Inr rs \<longleftrightarrow>
     list_all2 (\<lambda>g r. analyze_fn g fn = Inr r) (finditer text) rs"
  unfolding analyze_file_def analyze_matches_Inr [symmetric]
  by (auto split: sum.splits)

lemma analyze_file_fails:
  "isl (analyze_file fn text) \<longleftrightarrow> (\<exists>g\<in>set (finditer text). isl (analyze_fn g fn))"
  unfolding analyze_matches_fails [symmetric] analyze_file_def
  by (auto split: sum.splits)

lemma analyze_files_Inr:
  "analyze_files root files = Inr rs \<longleftrightarrow>
     (\<exists>rss. list_all2 (\<lambda>(fn, text) rs. analyze_file fn text = Inr rs)
               (filter (\<lambda>(fn, text). \<not> skipped root fn) files) rss
        \<and> rs = concat rss)"
proof (induction files arbitrary: rs)
  case Nil
  show ?case by auto
next
  case (Cons item files)
  obtain fn body where item: "item = (fn, body)" by (cases item)
  show ?case
  proof (cases "skipped root fn")
    case True
    then show ?thesis using Cons.IH item by simp
  next
    case False
    show ?thesis
    proof (cases "analyze_file fn body")
      case (Inl x)
      then show ?thesis using False item by (auto simp add: list_all2_Cons1)
    next
      case (Inr result)
      show ?thesis
      proof (cases "analyze_files root files")
        case (Inl x)
        then have "\<not> (\<exists>rss. list_all2 (\<lambda>(fn, text) rs. analyze_file fn text = Inr rs)
               (filter (\<lambda>(fn, text). \<not> skipped root fn) files) rss \<and> rs' = concat rss)" for rs'
          using Cons.IH [of rs'] by simp
        then show ?thesis using False item Inr Inl by (auto simp add: list_all2_Cons1)
      next
        case right: (Inr ret)
        then obtain rss where rss: "list_all2 (\<lambda>(fn, text) rs. analyze_file fn text = Inr rs)
               (filter (\<lambda>(fn, text). \<not> skipped root fn) files) rss" "ret = concat rss"
          using Cons.IH [of ret] by auto
        show ?thesis
        proof
          assume "analyze_files root (item # files) = Inr rs"
          then have "rs = result @ ret" using False item Inr right by simp
          then have "list_all2 (\<lambda>(fn, text) rs. analyze_file fn text = Inr rs)
               (filter (\<lambda>(fn, text). \<not> skipped root fn) (item # files)) (result # rss)
              \<and> rs = concat (result # rss)"
            using rss False item Inr by simp
          then show "\<exists>rss. list_all2 (\<lambda>(fn, text) rs. analyze_file fn text = Inr rs)
               (filter (\<lambda>(fn, text). \<not> skipped root fn) (item # files)) rss \<and> rs = concat rss"
            by blast
        next
          assume "\<exists>rss. list_all2 (\<lambda>(fn, text) rs. analyze_file fn text = Inr rs)
               (filter (\<lambda>(fn, text). \<not> skipped root fn) (item # files)) rss \<and> rs = concat rss"
          then obtain rss' where r': "list_all2 (\<lambda>(fn, text) rs. analyze_file fn text = Inr rs)
               ((fn, body) # filter (\<lambda>(fn, text). \<not> skipped root fn) files) rss'" "rs = concat rss'"
            using False item by auto
          then obtain q qs where q: "rss' = q # qs" "analyze_file fn body = Inr q"
            "list_all2 (\<lambda>(fn, text) rs. analyze_file fn text = Inr rs)
               (filter (\<lambda>(fn, text). \<not> skipped root fn) files) qs"
            by (auto simp add: list_all2_Cons1)
          then have "analyze_files root files = Inr (concat qs)" using Cons.IH by blast
          then show "analyze_files root (item # files) = Inr rs"
            using False item q r' by simp
        qed
      qed
    qed
  qed
qed

lemma analyze_files_fails:
  "isl (analyze_files root files) \<longleftrightarrow>
     (\<exists>p\<in>set files. \<not> skipped root (fst p) \<and> isl (analyze_file (fst p) (snd p)))"
proof (induction files)
  case Nil
  show ?case by simp
next
  case (Cons item files)
  obtain fn body where item: "item = (fn, body)" by (cases item)
  show ?case using Cons.IH by (auto simp add: item split: sum.splits)
qed

lemma analyze_headers_fails:
  "isl (analyze_headers include) \<longleftrightarrow>
     (\<exists>d\<in>set include. isl (analyze_files (fst d) (snd d)))"
proof (induction "include")
  case Nil
  show ?case by simp
next
  case (Cons dir dirs)
  obtain root files where dir: "dir = (root, files)" by (cases dir)
  show ?case using Cons.IH by (auto simp add: dir split: sum.splits)
qed

lemma analyze_headers_Inr:
  "analyze_headers include = Inr syscalls \<longleftrightarrow>
     (\<exists>rss. list_all2 (\<lambda>(fn, text) rs. analyze_file fn text = Inr rs) (scanned include) rss
        \<and> syscalls = concat rss)"
proof (induction "include" arbitrary: syscalls)
  case Nil
  show ?case by (auto simp add: scanned_def)
next
  case (Cons dir dirs)
  obtain root files where dir: "dir = (root, files)" by (cases dir)
  let ?P = "\<lambda>(fn, text) rs. analyze_file fn text = Inr rs"
  let ?here = "filter (\<lambda>(fn, text). \<not> skipped root fn) files"
  have sc: "scanned (dir # dirs) = ?here @ scanned dirs" by (simp add: scanned_def dir)
  show ?case
  proof
    assume a: "analyze_headers (dir # dirs) = Inr syscalls"
    then obtain result ret where r: "analyze_files root files = Inr result"
      "analyze_headers dirs = Inr ret" "syscalls = result @ ret"
      by (auto simp add: dir split: sum.splits)
    obtain rss1 where r1: "list_all2 ?P ?here rss1" "result = concat rss1"
      using r(1) analyze_files_Inr by blast
    obtain rss2 where r2: "list_all2 ?P (scanned dirs) rss2" "ret = concat rss2"
      using r(2) Cons.IH by blast
    have "list_all2 ?P (scanned (dir # dirs)) (rss1 @ rss2)"
      unfolding sc using r1(1) r2(1) by (rule list_all2_appendI)
    moreover have "syscalls = concat (rss1 @ rss2)" using r(3) r1(2) r2(2) by simp
    ultimately show "\<exists>rss. list_all2 ?P (scanned (dir # dirs)) rss \<and> syscalls = concat rss"
      by blast
  next
    assume "\<exists>rss. list_all2 ?P (scanned (dir # dirs)) rss \<and> syscalls = concat rss"
    then obtain rss where rss: "list_all2 ?P (?here @ scanned dirs) rss" "syscalls = concat rss"
      unfolding sc by blast
    then obtain rss1 rss2 where s: "rss = rss1 @ rss2" "list_all2 ?P ?here rss1"
      "list_all2 ?P (scanned dirs) rss2"
      by (auto simp add: list_all2_append1)
    have "analyze_files root files = Inr (concat rss1)" using s(2) analyze_files_Inr by blast
    moreover have "analyze_headers dirs = Inr (concat rss2)" using s(3) Cons.IH by blast
    ultimately show "analyze_headers (dir # dirs) = Inr syscalls"
      using rss(2) s(1) by (simp add: dir)
  qed
qed

lemma scanned_member:
  "(fn, text) \<in> set (scanned include) \<longleftrightarrow>
     (\<exists>root files. (root, files) \<in> set include \<and> (fn, text) \<in> set files \<and> \<not> skipped root fn)"
  by (auto simp add: scanned_def)

lemma analyze_headers_records:
  assumes "analyze_headers include = Inr syscalls" and "r \<in> set syscalls"
  shows "\<exists>body g. (sc_fn r, body) \<in> set (scanned include) \<and> g \<in> set (finditer body)
            \<and> analyze_fn g (sc_fn r) = Inr r"
proof -
  let ?P = "\<lambda>(fn, text) rs. analyze_file fn text = Inr rs"
  obtain rss where rss: "list_all2 ?P (scanned include) rss" "syscalls = concat rss"
    using assms(1) analyze_headers_Inr by blast
  then obtain rs where rs: "rs \<in> set rss" "r \<in> set rs" using assms(2) by auto
  then obtain i where i: "i < length rss" "rss ! i = rs" by (auto simp add: in_set_conv_nth)
  then have il: "i < length (scanned include)" using rss(1) by (simp add: list_all2_lengthD)
  obtain fn body where ft: "scanned include ! i = (fn, body)" by (cases "scanned include ! i")
  have "?P (scanned include ! i) (rss ! i)" using rss(1) i(1) by (simp add: list_all2_nthD2)
  then have "analyze_file fn body = Inr rs" using ft i(2) by simp
  then have m: "list_all2 (\<lambda>g r. analyze_fn g fn = Inr r) (finditer body) rs"
    by (simp add: analyze_file_Inr)
  obtain j where j: "j < length rs" "rs ! j = r" using rs(2) by (auto simp add: in_set_conv_nth)
  then have jl: "j < length (finditer body)" using m by (simp add: list_all2_lengthD)
  have ok: "analyze_fn (finditer body ! j) fn = Inr r"
    using m j by (auto simp add: list_all2_conv_all_nth)
  obtain variant func args where g: "finditer body ! j = (variant, func, args)"
    by (cases "finditer body ! j")
  have "sc_fn r = fn" using analyze_fn_fields [OF ok [unfolded g]] by blast
  moreover have "(fn, body) \<in> set (scanned include)" using il ft by (metis nth_mem)
  moreover have "finditer body ! j \<in> set (finditer body)" using jl by simp
  ultimately show ?thesis using ok by blast
qed


subsection \<open>One header\<close>

lemma write_header_kept:
  assumes "resolve w (path_join b fn) = Some loc" and "file_at w loc = Some stored"
    and "universal_newlines stored = header_text l"
  shows "write_header b w (fn, l) = Inr w"
  using assms by (simp add: write_header_def path_exists_def read_file_def Let_def)

lemma write_header_Inr:
  assumes "write_header b w (fn, l) = Inr w'"
  shows "resolve w (path_join b fn) = Some (place w (path_join b fn))
         \<and> ((\<exists>stored. file_at w (place w (path_join b fn)) = Some stored
                \<and> universal_newlines stored = header_text l \<and> w' = w)
             \<or> (writable w (path_join b fn)
                \<and> (\<forall>stored. file_at w (place w (path_join b fn)) = Some stored
                       \<longrightarrow> universal_newlines stored \<noteq> header_text l)
                \<and> w' = w\<lparr>file_at := (file_at w)(place w (path_join b fn) \<mapsto> header_text l),
                          written := written w @ [place w (path_join b fn)]\<rparr>))"
proof -
  let ?p = "path_join b fn"
  obtain loc where r: "resolve w ?p = Some loc"
    using assms
    by (cases "resolve w ?p")
       (auto simp add: write_header_def path_exists_def write_file_def Let_def)
  have loc: "loc = place w ?p" using r by (rule resolve_place)
  show ?thesis
  proof (cases "\<exists>stored. file_at w loc = Some stored \<and> universal_newlines stored = header_text l")
    case True
    then obtain stored where s: "file_at w loc = Some stored"
      "universal_newlines stored = header_text l" by blast
    have "write_header b w (fn, l) = Inr w" using r s by (rule write_header_kept)
    then have "w' = w" using assms by simp
    then show ?thesis using r s loc by auto
  next
    case False
    have wf: "write_file ?p (header_text l) w = Inr w'"
      using assms r False
      by (auto simp add: write_header_def path_exists_def read_file_def Let_def
            split: if_splits option.splits sum.splits)
    then show ?thesis using r loc False by (auto simp add: write_file_Inr)
  qed
qed



lemma write_header_frame:
  assumes "write_header b w item = Inr w'"
  shows "dir_set w' = dir_set w \<and> cwd w' = cwd w \<and> out w' = out w \<and> err w' = err w
         \<and> (\<forall>loc. loc \<noteq> place w (header_path b item) \<longrightarrow> file_at w' loc = file_at w loc)
         \<and> (written w' = written w \<and> file_at w' = file_at w
             \<or> written w' = written w @ [place w (header_path b item)])
         \<and> (\<exists>stored. file_at w' (place w (header_path b item)) = Some stored
               \<and> (stored = header_text (snd item)
                   \<or> universal_newlines stored = header_text (snd item)))"
proof -
  obtain fn l where item: "item = (fn, l)" by (cases item)
  show ?thesis
    using write_header_Inr [OF assms [unfolded item]]
    by (auto simp add: item header_path_def)
qed



subsection \<open>All headers\<close>

lemma write_headers_frame:
  "write_headers b w items = (r, w') \<Longrightarrow>
   dir_set w' = dir_set w \<and> cwd w' = cwd w \<and> out w' = out w \<and> err w' = err w
   \<and> (\<forall>loc. loc \<notin> (\<lambda>item. place w (header_path b item)) ` set items
          \<longrightarrow> file_at w' loc = file_at w loc)
   \<and> (\<exists>ps. written w' = written w @ ps
          \<and> set ps \<subseteq> (\<lambda>item. place w (header_path b item)) ` set items)"
proof (induction items arbitrary: w)
  case Nil
  then show ?case by simp
next
  case (Cons item items)
  let ?P = "place w (header_path b item)"
  let ?Q = "(\<lambda>item. place w (header_path b item)) ` set items"
  show ?case
  proof (cases "write_header b w item")
    case (Inl e)
    then have "w' = w" using Cons.prems by simp
    then show ?thesis by simp
  next
    case (Inr v)
    then have rest: "write_headers b v items = (r, w')" using Cons.prems by simp
    note f = write_header_frame [OF Inr]
    have fd: "dir_set v = dir_set w" "cwd v = cwd w" "out v = out w" "err v = err w"
      using f by simp_all
    have fo: "file_at v loc = file_at w loc" if "loc \<noteq> ?P" for loc
      using f that by simp
    have fw: "written v = written w \<or> written v = written w @ [?P]"
      using f by blast
    have pl: "place v p = place w p" for p using fd(2) by (rule place_same)
    have img: "(\<lambda>item. place v (header_path b item)) ` set items = ?Q"
      by (simp add: pl)
    note ih = Cons.IH [OF rest]
    have id: "dir_set w' = dir_set v" "cwd w' = cwd v" "out w' = out v" "err w' = err v"
      using ih by simp_all
    have io: "file_at w' loc = file_at v loc" if "loc \<notin> ?Q" for loc
      using ih that unfolding img by simp
    obtain ps where ps: "written w' = written v @ ps" "set ps \<subseteq> ?Q"
      using ih unfolding img by blast
    have a: "dir_set w' = dir_set w \<and> cwd w' = cwd w \<and> out w' = out w \<and> err w' = err w"
      using fd id by simp
    have b: "\<forall>loc. loc \<notin> (\<lambda>item. place w (header_path b item)) ` set (item # items)
          \<longrightarrow> file_at w' loc = file_at w loc"
    proof (intro allI impI)
      fix loc
      assume n: "loc \<notin> (\<lambda>item. place w (header_path b item)) ` set (item # items)"
      then have "loc \<noteq> ?P" and "loc \<notin> ?Q" by simp_all
      then show "file_at w' loc = file_at w loc" using fo io by simp
    qed
    obtain qs where qs: "written v = written w @ qs" "set qs \<subseteq> {?P}"
    proof (cases "written v = written w")
      case True
      then show ?thesis using that [of "[]"] by simp
    next
      case False
      then have "written v = written w @ [?P]" using fw by simp
      then show ?thesis using that [of "[?P]"] by simp
    qed
    have "written w' = written w @ (qs @ ps)" using ps(1) qs(1) by simp
    moreover have "set (qs @ ps) \<subseteq> (\<lambda>item. place w (header_path b item)) ` set (item # items)"
      using ps(2) qs(2) by auto
    ultimately have c: "\<exists>ps. written w' = written w @ ps
          \<and> set ps \<subseteq> (\<lambda>item. place w (header_path b item)) ` set (item # items)"
      by blast
    show ?thesis using a b c by (intro conjI) simp_all
  qed
qed


lemma write_headers_done:
  assumes "write_headers b w items = (None, w')"
    and "distinct (map (\<lambda>item. place w (header_path b item)) items)"
    and "item \<in> set items"
  shows "resolve w (header_path b item) = Some (place w (header_path b item))
         \<and> (\<exists>stored. file_at w' (place w (header_path b item)) = Some stored
               \<and> (stored = header_text (snd item)
                   \<or> universal_newlines stored = header_text (snd item)))"
  using assms
proof (induction items arbitrary: w)
  case Nil
  then show ?case by simp
next
  case (Cons first items)
  obtain v where v: "write_header b w first = Inr v" and rest: "write_headers b v items = (None, w')"
    using Cons.prems(1) by (cases "write_header b w first") auto
  note f = write_header_frame [OF v]
  have fd: "dir_set v = dir_set w" and fc: "cwd v = cwd w" using f by simp_all
  have fs: "\<exists>stored. file_at v (place w (header_path b first)) = Some stored
               \<and> (stored = header_text (snd first)
                   \<or> universal_newlines stored = header_text (snd first))"
    using f by (elim conjE)
  have pl: "place v p = place w p" for p using fc by (rule place_same)
  have rs: "resolve v p = resolve w p" for p using fd fc by (rule resolve_same)
  have img: "(\<lambda>item. place v (header_path b item)) = (\<lambda>item. place w (header_path b item))"
    by (simp add: pl)
  show ?case
  proof (cases "item = first")
    case True
    obtain fn l where first: "first = (fn, l)" by (cases first)
    have "resolve w (path_join b fn) = Some (place w (path_join b fn))"
      using write_header_Inr [OF v [unfolded first]] by (elim conjE)
    then have r: "resolve w (header_path b first) = Some (place w (header_path b first))"
      by (simp add: first header_path_def)
    have "place w (header_path b first) \<notin> (\<lambda>item. place w (header_path b item)) ` set items"
      using Cons.prems(2) by simp
    then have n: "place w (header_path b first) \<notin> (\<lambda>item. place v (header_path b item)) ` set items"
      unfolding img .
    have "\<forall>loc. loc \<notin> (\<lambda>item. place v (header_path b item)) ` set items
          \<longrightarrow> file_at w' loc = file_at v loc"
      using write_headers_frame [OF rest] by (elim conjE)
    then have "file_at w' (place w (header_path b first)) = file_at v (place w (header_path b first))"
      using n by (elim allE impE)
    then have "\<exists>stored. file_at w' (place w (header_path b first)) = Some stored
               \<and> (stored = header_text (snd first)
                   \<or> universal_newlines stored = header_text (snd first))"
      using fs by (simp only:)
    then show ?thesis using r unfolding True by (intro conjI)
  next
    case False
    then have m: "item \<in> set items" using Cons.prems(3) by simp
    have "distinct (map (\<lambda>item. place w (header_path b item)) items)"
      using Cons.prems(2) by simp
    then have d: "distinct (map (\<lambda>item. place v (header_path b item)) items)"
      unfolding img .
    show ?thesis using Cons.IH [OF rest d m] unfolding pl rs .
  qed
qed


lemma write_headers_kept:
  "(\<forall>item\<in>set items. \<exists>loc stored. resolve w (header_path b item) = Some loc
       \<and> file_at w loc = Some stored \<and> universal_newlines stored = header_text (snd item))
   \<Longrightarrow> write_headers b w items = (None, w)"
proof (induction items)
  case Nil
  show ?case by simp
next
  case (Cons item items)
  obtain fn l where item: "item = (fn, l)" by (cases item)
  obtain loc stored where "resolve w (path_join b fn) = Some loc" "file_at w loc = Some stored"
    "universal_newlines stored = header_text l"
    using Cons.prems by (auto simp add: item header_path_def)
  then have "write_header b w (fn, l) = Inr w" by (rule write_header_kept)
  then show ?case using Cons by (simp add: item)
qed





section \<open>Properties of the header paths\<close>

lemma split_on_plain: "c \<notin> set s \<Longrightarrow> split_on c s = [s]"
  by (induction s) auto

lemma split_on_sep: "split_on c (a @ c # r) = split_on c a @ split_on c r"
proof (induction a)
  case Nil
  show ?case by simp
next
  case (Cons x a)
  show ?case
  proof (cases "x = c")
    case True
    then show ?thesis using Cons by simp
  next
    case False
    obtain p ps where p: "split_on c a = p # ps"
      using split_on_nonempty [of c a] by (cases "split_on c a") auto
    show ?thesis using False Cons p by simp
  qed
qed

lemma step_plain: "fn \<noteq> [] \<Longrightarrow> fn \<noteq> ''.'' \<Longrightarrow> fn \<noteq> ''..'' \<Longrightarrow> step cur fn = cur @ [fn]"
  by (simp add: step_def)



lemma header_place:
  assumes "CHR ''/'' \<notin> set fn" and "fn \<noteq> []" and "fn \<noteq> ''.''" and "fn \<noteq> ''..''"
  shows "place w (path_join b fn) = (if b = [] then cwd w else place w b) @ [fn]"
proof -
  have hd: "hd fn \<noteq> CHR ''/''" using assms(1,2) by (cases fn) auto
  have one: "split_on CHR ''/'' fn = [fn]" using assms(1) by (rule split_on_plain)
  have st: "step cur fn = cur @ [fn]" for cur using assms(2-4) by (rule step_plain)
  show ?thesis
  proof (cases "b = []")
    case True
    then have "path_join b fn = fn" using hd assms(2) by (simp add: path_join_def)
    then show ?thesis using True hd one st by (simp add: place_def start_def)
  next
    case False
    show ?thesis
    proof (cases "last b = CHR ''/''")
      case True
      then obtain b' where b: "b = b' @ ''/''" using False by (cases b rule: rev_cases) auto
      have p: "path_join b fn = b' @ CHR ''/'' # fn"
        using hd assms(2) b by (simp add: path_join_def)
      have s: "start w (b' @ CHR ''/'' # fn) = start w b"
        unfolding b by (cases b') (simp_all add: start_def)
      have "split_on CHR ''/'' b = split_on CHR ''/'' b' @ [[]]"
        unfolding b using split_on_sep [of "CHR ''/''" b' "[]"] by simp
      then have "place w b = foldl step (start w b) (split_on CHR ''/'' b')"
        by (simp add: place_def step_def)
      then show ?thesis using False p s one st by (simp add: place_def split_on_sep)
    next
      case nl: False
      have p: "path_join b fn = b @ CHR ''/'' # fn"
        using hd assms(2) False nl by (simp add: path_join_def)
      have s: "start w (b @ CHR ''/'' # fn) = start w b"
        using False by (cases b) (simp_all add: start_def)
      show ?thesis using False p s one st by (simp add: place_def split_on_sep)
    qed
  qed
qed




lemma endswith_h: "endswith fn ''.h'' \<Longrightarrow> fn \<noteq> [] \<and> fn \<noteq> ''.'' \<and> fn \<noteq> ''..''"
  by (auto simp add: endswith_def)

lemma record_names_plain:
  assumes "analyze_headers include = Inr syscalls" and "as_walked include" and "r \<in> set syscalls"
  shows "CHR ''/'' \<notin> set (sc_fn r) \<and> sc_fn r \<noteq> [] \<and> sc_fn r \<noteq> ''.'' \<and> sc_fn r \<noteq> ''..''"
proof -
  obtain body where "(sc_fn r, body) \<in> set (scanned include)"
    using analyze_headers_records [OF assms(1,3)] by blast
  then obtain root files where m: "(root, files) \<in> set include" "(sc_fn r, body) \<in> set files"
    "\<not> skipped root (sc_fn r)"
    using scanned_member by blast
  have "CHR ''/'' \<notin> set (sc_fn r)" using assms(2) m(1,2) unfolding as_walked_def by fastforce
  moreover have "endswith (sc_fn r) ''.h''" using m(3) by (simp add: skipped_def)
  ultimately show ?thesis using endswith_h by blast
qed

lemma record_header_place:
  assumes "analyze_headers include = Inr syscalls" and "as_walked include" and "r \<in> set syscalls"
  shows "place w (path_join b (sc_fn r)) = (if b = [] then cwd w else place w b) @ [sc_fn r]"
  using record_names_plain [OF assms] by (simp add: header_place)



lemma header_places_distinct:
  assumes "analyze_headers include = Inr syscalls" and "as_walked include"
  shows "distinct (map (\<lambda>item. place w (header_path b item)) (invocations_of syscalls))"
proof -
  let ?base = "if b = [] then cwd w else place w b"
  have e: "place w (header_path b item) = ?base @ [fst item]"
    if "item \<in> set (invocations_of syscalls)" for item
  proof -
    have "fst item \<in> sc_fn ` set syscalls"
      using that invocations_of_keys [of syscalls] by (metis imageI)
    then obtain r where "r \<in> set syscalls" "fst item = sc_fn r" by auto
    then show ?thesis
      using record_header_place [OF assms, of r w b] by (simp add: header_path_def)
  qed
  have "map (\<lambda>item. place w (header_path b item)) (invocations_of syscalls)
      = map (\<lambda>k. ?base @ [k]) (map fst (invocations_of syscalls))"
    using e by (simp del: place_def)
  moreover have "distinct (map (\<lambda>k. ?base @ [k]) (map fst (invocations_of syscalls)))"
    using invocations_of_distinct [of syscalls]
    by (simp only: distinct_map) (simp add: inj_on_def)
  ultimately show ?thesis by (simp only:)
qed

lemma header_places_image:
  "(\<lambda>item. place w (header_path b item)) ` set (invocations_of syscalls)
     = (\<lambda>r. place w (path_join b (sc_fn r))) ` set syscalls"
proof -
  have "(\<lambda>item. place w (header_path b item)) ` set (invocations_of syscalls)
      = (\<lambda>k. place w (path_join b k)) ` fst ` set (invocations_of syscalls)"
    by (simp add: header_path_def image_image)
  then show ?thesis by (simp add: invocations_of_keys image_image)
qed




section \<open>Carriage returns\<close>

text \<open>
  Every character of an invocation comes from the text of the header or from the script,
  so a text without carriage returns gives a header without carriage returns, which text
  mode reads as it was written.
\<close>

lemma strip_chars: "set (strip s) \<subseteq> set s"
proof -
  have "set (dropWhile is_space (rev (dropWhile is_space s))) \<subseteq> set (rev (dropWhile is_space s))"
    by (rule set_dropWhileD [THEN subsetI])
  moreover have "set (dropWhile is_space s) \<subseteq> set s"
    by (rule set_dropWhileD [THEN subsetI])
  ultimately show ?thesis by (simp add: strip_def)
qed

lemma chomp_chars: "set (chomp s) \<subseteq> set s"
  by (auto simp add: chomp_def dest: in_set_butlastD)

lemma before_chars: "set (before_ident s) \<subseteq> set s"
  using before_trailing [of s] by (metis Un_upper1 set_append)

lemma trailing_chars: "set (trailing_ident s) \<subseteq> set s"
  using before_trailing [of s] by (metis Un_upper2 set_append)

lemma typename_split_chars:
  assumes "typename_split item = Inr (t, n)"
  shows "set t \<subseteq> set item \<and> set n \<subseteq> set item"
proof -
  have "tm_spec [] item = Some (before_ident (chomp item), trailing_ident (chomp item))
      \<and> t = strip (before_ident (chomp item)) \<and> n = trailing_ident (chomp item)"
    using assms
    by (auto simp add: typename_split_def typename_match_spec tm_spec_def Let_def
          split: if_splits)
  then have t: "t = strip (before_ident (chomp item))" and n: "n = trailing_ident (chomp item)"
    by simp_all
  have "set t \<subseteq> set (chomp item)"
    unfolding t using strip_chars before_chars by (rule subset_trans)
  moreover have "set n \<subseteq> set (chomp item)" unfolding n by (rule trailing_chars)
  ultimately show ?thesis using chomp_chars [of item] by blast
qed

lemma split_on_chars: "p \<in> set (split_on c s) \<Longrightarrow> set p \<subseteq> set s"
proof (induction s arbitrary: p)
  case Nil
  then show ?case by simp
next
  case (Cons x s)
  obtain q qs where q: "split_on c s = q # qs"
    using split_on_nonempty [of c s] by (cases "split_on c s") auto
  show ?case
  proof (cases "x = c")
    case True
    then have "p = [] \<or> p \<in> set (split_on c s)" using Cons.prems by simp
    then show ?thesis using Cons.IH by auto
  next
    case False
    then have "p = x # q \<or> p \<in> set qs" using Cons.prems q by simp
    moreover have "set q \<subseteq> set s" using Cons.IH [of q] q by simp
    moreover have "set p \<subseteq> set s" if "p \<in> set qs" using Cons.IH [of p] q that by simp
    ultimately show ?thesis by auto
  qed
qed

lemma split_each_chars:
  "split_each ps = Inr rs \<Longrightarrow> (t, n) \<in> set rs \<Longrightarrow>
   \<exists>a\<in>set ps. set t \<subseteq> set a \<and> set n \<subseteq> set a"
proof (induction ps arbitrary: rs)
  case Nil
  then show ?case by simp
next
  case (Cons a ps)
  obtain p where p: "typename_split (strip a) = Inr p"
    using Cons.prems(1) by (cases "typename_split (strip a)") auto
  obtain rs' where rs': "split_each ps = Inr rs'" and rs: "rs = p # rs'"
    using Cons.prems(1) p by (cases "split_each ps") auto
  show ?case
  proof (cases "(t, n) = p")
    case True
    then have "typename_split (strip a) = Inr (t, n)" using p by simp
    then have "set t \<subseteq> set (strip a) \<and> set n \<subseteq> set (strip a)"
      by (rule typename_split_chars)
    then have "set t \<subseteq> set a \<and> set n \<subseteq> set a" using strip_chars [of a] by blast
    then show ?thesis by simp
  next
    case False
    then have "(t, n) \<in> set rs'" using Cons.prems(2) rs by auto
    then show ?thesis using Cons.IH [OF rs'] by auto
  qed
qed

lemma analyze_args_chars:
  assumes "analyze_args args = Inr args'" and "x \<in> set (flatten_args args')"
  shows "set x \<subseteq> set args"
proof -
  obtain t n where tn: "(t, n) \<in> set args'" and x: "x = t \<or> x = n"
    using assms(2) by (auto simp add: flatten_args_def)
  have "args' \<noteq> []" using tn by auto
  then have "split_each (split_on CHR '','' args) = Inr args'"
    using assms(1) by (auto simp add: analyze_args_def split: if_splits)
  then obtain a where "a \<in> set (split_on CHR '','' args)" "set t \<subseteq> set a \<and> set n \<subseteq> set a"
    using split_each_chars tn by blast
  then show ?thesis using x split_on_chars [of a "CHR '',''" args] by blast
qed

lemma join_chars: "set (join sep xs) \<subseteq> set sep \<union> \<Union> (set ` set xs)"
  by (induction sep xs rule: join.induct) auto

lemma universal_newlines_plain: "CHR 0x0D \<notin> set s \<Longrightarrow> universal_newlines s = s"
  by (induction s rule: universal_newlines.induct) auto


lemma strip_prefix_chars: "strip_prefix p s = Some r \<Longrightarrow> set r \<subseteq> set s"
  by (induction p s rule: strip_prefix.induct) (auto split: if_splits)

lemma match_tail_chars:
  assumes "match_tail t = Some (f, a, rest)"
  shows "set f \<subseteq> set t \<and> set a \<subseteq> set t \<and> set rest \<subseteq> set t"
proof -
  let ?d = "dropWhile (\<lambda>c. c \<noteq> CHR ''('') t"
  have ne: "takeWhile (\<lambda>c. c \<noteq> CHR ''('') t \<noteq> []"
  proof
    assume "takeWhile (\<lambda>c. c \<noteq> CHR ''('') t = []"
    then have "match_tail t = None" by (simp add: match_tail_def)
    then show False using assms by simp
  qed
  have m1: "match_tail t =
      (case ?d of [] \<Rightarrow> None
       | x # t2 \<Rightarrow>
           (case dropWhile (\<lambda>c. c \<noteq> CHR '')'') t2 of
              [] \<Rightarrow> None
            | y # rest \<Rightarrow> Some (takeWhile (\<lambda>c. c \<noteq> CHR ''('') t,
                                 takeWhile (\<lambda>c. c \<noteq> CHR '')'') t2, rest)))"
    using ne by (simp add: match_tail_def Let_def)
  obtain x t2 where t2: "?d = x # t2"
  proof (cases ?d)
    case Nil
    have "match_tail t = None" unfolding m1 Nil by simp
    then show ?thesis using assms by simp
  next
    case (Cons x t2)
    then show ?thesis by (rule that)
  qed
  let ?e = "dropWhile (\<lambda>c. c \<noteq> CHR '')'') t2"
  have m2: "match_tail t =
      (case ?e of [] \<Rightarrow> None
       | y # rest \<Rightarrow> Some (takeWhile (\<lambda>c. c \<noteq> CHR ''('') t,
                            takeWhile (\<lambda>c. c \<noteq> CHR '')'') t2, rest))"
    unfolding m1 t2 by simp
  obtain y rest' where r: "?e = y # rest'"
  proof (cases ?e)
    case Nil
    have "match_tail t = None" unfolding m2 Nil by simp
    then show ?thesis using assms by simp
  next
    case (Cons y rest')
    then show ?thesis by (rule that)
  qed
  have "match_tail t = Some (takeWhile (\<lambda>c. c \<noteq> CHR ''('') t,
                            takeWhile (\<lambda>c. c \<noteq> CHR '')'') t2, rest')"
    unfolding m2 r by simp
  then have "Some (f, a, rest) = Some (takeWhile (\<lambda>c. c \<noteq> CHR ''('') t,
                            takeWhile (\<lambda>c. c \<noteq> CHR '')'') t2, rest')"
    using assms by (simp only:)
  then have f: "f = takeWhile (\<lambda>c. c \<noteq> CHR ''('') t"
    and a: "a = takeWhile (\<lambda>c. c \<noteq> CHR '')'') t2" and rest: "rest = rest'"
    by simp_all
  have "set ?d \<subseteq> set t" by (rule set_dropWhileD [THEN subsetI])
  then have "set (x # t2) \<subseteq> set t" unfolding t2 .
  then have s2: "set t2 \<subseteq> set t" by simp
  have "set ?e \<subseteq> set t2" by (rule set_dropWhileD [THEN subsetI])
  then have "set (y # rest') \<subseteq> set t2" unfolding r .
  then have s3: "set rest \<subseteq> set t2" using rest by simp
  have "set f \<subseteq> set t" unfolding f by (auto dest: set_takeWhileD)
  moreover have "set a \<subseteq> set t2" unfolding a by (auto dest: set_takeWhileD)
  ultimately show ?thesis using s2 s3 by blast
qed

lemma first_some_found: "first_some g js = Some v \<Longrightarrow> \<exists>j. g j = Some v"
  by (induction js) (auto split: option.splits)



lemma after_keyword_chars:
  assumes "after_keyword r = Some (f, a, rest)"
  shows "set f \<subseteq> set r \<and> set a \<subseteq> set r \<and> set rest \<subseteq> set r"
proof -
  obtain j where "match_tail (drop j r) = Some (f, a, rest)"
    using assms first_some_found unfolding after_keyword_def Let_def by fast
  then have "set f \<subseteq> set (drop j r) \<and> set a \<subseteq> set (drop j r) \<and> set rest \<subseteq> set (drop j r)"
    by (rule match_tail_chars)
  then show ?thesis using set_drop_subset [of j r] by blast
qed

lemma api_match_at_chars:
  assumes "api_match_at s = Some ((v, f, a), rest)"
  shows "set f \<subseteq> set s \<and> set a \<subseteq> set s \<and> set rest \<subseteq> set s"
proof -
  obtain r where r: "strip_prefix ''__syscall'' s = Some r"
    using assms unfolding api_match_at_def by (auto split: option.splits)
  have rs: "set r \<subseteq> set s" using r by (rule strip_prefix_chars)
  show ?thesis
  proof (cases "after_keyword r")
    case (Some m)
    then have "after_keyword r = Some (f, a, rest)"
      using assms r unfolding api_match_at_def by (auto split: option.splits prod.splits)
    then show ?thesis using after_keyword_chars rs by blast
  next
    case None
    then obtain r' where r': "strip_prefix ''_inline'' r = Some r'"
      and k: "after_keyword r' = Some (f, a, rest)"
      using assms r unfolding api_match_at_def by (auto split: option.splits prod.splits)
    have "set r' \<subseteq> set r" using r' by (rule strip_prefix_chars)
    then show ?thesis using after_keyword_chars [OF k] rs by blast
  qed
qed

lemma finditer_chars:
  "(v, f, a) \<in> set (finditer s) \<Longrightarrow> set f \<subseteq> set s \<and> set a \<subseteq> set s"
proof (induction s rule: finditer.induct)
  case 1
  then show ?case by simp
next
  case (2 c cs)
  show ?case
  proof (cases "api_match_at (c # cs)")
    case None
    then have "(v, f, a) \<in> set (finditer cs)" using "2.prems" by simp
    then have "set f \<subseteq> set cs \<and> set a \<subseteq> set cs" using "2.IH"(1) None by simp
    then show ?thesis by auto
  next
    case (Some m)
    obtain g rest where m: "m = (g, rest)" by (cases m)
    obtain v' f' a' where g: "g = (v', f', a')" by (cases g)
    have c: "set f' \<subseteq> set (c # cs) \<and> set a' \<subseteq> set (c # cs) \<and> set rest \<subseteq> set (c # cs)"
      using Some unfolding m g by (rule api_match_at_chars)
    have "(v, f, a) = g \<or> (v, f, a) \<in> set (finditer rest)"
      using "2.prems" Some m by simp
    then show ?thesis
    proof
      assume "(v, f, a) = g"
      then show ?thesis using c g by simp
    next
      assume "(v, f, a) \<in> set (finditer rest)"
      then have "set f \<subseteq> set rest \<and> set a \<subseteq> set rest"
        using "2.IH"(2) [OF Some m [symmetric]] by simp
      then show ?thesis using c by blast
    qed
  qed
qed


section \<open>Claims on the analyzer\<close>

text \<open>
  Claim C1. Whenever \<open>analyze_fn\<close> returns a record for a match, the splitter has split the
  return fragment into a type and a function name made of identifier characters, the
  identifier of the record is \<^verbatim>\<open>K_SYSCALL_\<close> followed by the function name in upper case, its
  handler symbol is \<^verbatim>\<open>_handler_\<close> followed by the function name, and its dispatch entry is
  the identifier in square brackets, \<^verbatim>\<open> = \<close> and the handler symbol.
\<close>

theorem analyze_fn_names:
  assumes "analyze_fn (variant, func, args) fn = Inr r"
  shows "\<exists>func_type func_name.
           typename_split func = Inr (func_type, func_name)
           \<and> func_name \<noteq> [] \<and> (\<forall>c\<in>set func_name. is_ident c)
           \<and> sc_sys_id r = ''K_SYSCALL_'' @ upper func_name
           \<and> sc_handler r = ''_handler_'' @ func_name
           \<and> sc_table_entry r = ''['' @ sc_sys_id r @ ''] = '' @ sc_handler r"
proof -
  obtain args' where a: "analyze_args args = Inr args'"
    using assms unfolding analyze_fn_def by (auto split: sum.splits)
  then obtain func_type func_name where s: "typename_split func = Inr (func_type, func_name)"
    using assms unfolding analyze_fn_def by (auto split: sum.splits)
  have "sc_sys_id r = ''K_SYSCALL_'' @ upper func_name"
    and "sc_handler r = ''_handler_'' @ func_name"
    and "sc_table_entry r = ''['' @ sc_sys_id r @ ''] = '' @ sc_handler r"
    using assms s a unfolding analyze_fn_def
    by (auto simp add: Let_def)
  then show ?thesis using s typename_split_ident [OF s] by blast
qed

theorem analyze_fn_names_witness:
  "analyze_fn (''syscall_inline'', ''void baz'', ''void'') ''kernel.h'' =
     Inr \<lparr>sc_fn = ''kernel.h'', sc_handler = ''_handler_baz'',
          sc_invocation = ''K_SYSCALL_DECLARE0_VOID_INLINE(K_SYSCALL_BAZ, baz);'',
          sc_sys_id = ''K_SYSCALL_BAZ'', sc_table_entry = ''[K_SYSCALL_BAZ] = _handler_baz''\<rparr>
   \<and> (\<exists>func_type func_name.
         typename_split ''void baz'' = Inr (func_type, func_name)
         \<and> func_name \<noteq> [] \<and> (\<forall>c\<in>set func_name. is_ident c)
         \<and> ''K_SYSCALL_BAZ'' = ''K_SYSCALL_'' @ upper func_name
         \<and> ''_handler_baz'' = ''_handler_'' @ func_name
         \<and> ''[K_SYSCALL_BAZ] = _handler_baz'' = ''['' @ ''K_SYSCALL_BAZ'' @ ''] = '' @ ''_handler_baz'')"
proof -
  have h: "analyze_fn (''syscall_inline'', ''void baz'', ''void'') ''kernel.h'' =
     Inr \<lparr>sc_fn = ''kernel.h'', sc_handler = ''_handler_baz'',
          sc_invocation = ''K_SYSCALL_DECLARE0_VOID_INLINE(K_SYSCALL_BAZ, baz);'',
          sc_sys_id = ''K_SYSCALL_BAZ'', sc_table_entry = ''[K_SYSCALL_BAZ] = _handler_baz''\<rparr>"
    by code_simp
  show ?thesis using h analyze_fn_names [OF h] by simp
qed

text \<open>
  Claim C2. The macro name is a function of the argument count, the void flag and the
  inline flag, and two triples with the same macro name are the same triple. In the
  invocation of a record, the text before the first parenthesis is the macro name of the
  number of arguments, of whether the return type is \<^verbatim>\<open>void\<close> and of whether the
  annotation is \<^verbatim>\<open>syscall_inline\<close>.
\<close>

theorem macro_name_encodes:
  "(macro_name n v i = macro_name n' v' i' \<longleftrightarrow> n = n' \<and> v = v' \<and> i = i')
   \<and> (analyze_fn (variant, func, args) fn = Inr r \<longrightarrow>
        (\<exists>func_type func_name args'.
            typename_split func = Inr (func_type, func_name)
            \<and> analyze_args args = Inr args'
            \<and> takeWhile (\<lambda>c. c \<noteq> CHR ''('') (sc_invocation r)
                = macro_name (length args') (func_type = ''void'') (variant = ''syscall_inline'')))"
proof (intro conjI impI)
  show "macro_name n v i = macro_name n' v' i' \<longleftrightarrow> n = n' \<and> v = v' \<and> i = i'"
    using macro_name_inj by blast
next
  assume r: "analyze_fn (variant, func, args) fn = Inr r"
  obtain args' where a: "analyze_args args = Inr args'"
    using r unfolding analyze_fn_def by (auto split: sum.splits)
  then obtain func_type func_name where s: "typename_split func = Inr (func_type, func_name)"
    using r unfolding analyze_fn_def by (auto split: sum.splits)
  let ?m = "macro_name (length args') (func_type = ''void'') (variant = ''syscall_inline'')"
  obtain rest where "sc_invocation r = ?m @ CHR ''('' # rest"
    using r a s unfolding analyze_fn_def by (auto simp add: Let_def)
  moreover have "takeWhile (\<lambda>c. c \<noteq> CHR ''('') (?m @ CHR ''('' # rest) = ?m"
    using macro_name_no_paren [of "length args'" "func_type = ''void''" "variant = ''syscall_inline''"]
    by (subst takeWhile_append2) auto
  ultimately show "\<exists>func_type func_name args'.
            typename_split func = Inr (func_type, func_name)
            \<and> analyze_args args = Inr args'
            \<and> takeWhile (\<lambda>c. c \<noteq> CHR ''('') (sc_invocation r)
                = macro_name (length args') (func_type = ''void'') (variant = ''syscall_inline'')"
    using a s by auto
qed

theorem macro_name_encodes_witness:
  "analyze_fn (''syscall'', ''void put'', ''int a, char *b, long c'') ''log.h'' =
     Inr \<lparr>sc_fn = ''log.h'', sc_handler = ''_handler_put'',
          sc_invocation = ''K_SYSCALL_DECLARE3_VOID(K_SYSCALL_PUT, put, int, a, char *, b, long, c);'',
          sc_sys_id = ''K_SYSCALL_PUT'', sc_table_entry = ''[K_SYSCALL_PUT] = _handler_put''\<rparr>
   \<and> macro_name 3 True False = ''K_SYSCALL_DECLARE3_VOID''
   \<and> (macro_name 3 True False = macro_name 3 True True \<longleftrightarrow> False)
   \<and> (\<exists>func_type func_name args'.
          typename_split ''void put'' = Inr (func_type, func_name)
          \<and> analyze_args ''int a, char *b, long c'' = Inr args'
          \<and> ''K_SYSCALL_DECLARE3_VOID''
              = macro_name (length args') (func_type = ''void'') (''syscall'' = ''syscall_inline''))"
proof -
  have h: "analyze_fn (''syscall'', ''void put'', ''int a, char *b, long c'') ''log.h'' =
     Inr \<lparr>sc_fn = ''log.h'', sc_handler = ''_handler_put'',
          sc_invocation = ''K_SYSCALL_DECLARE3_VOID(K_SYSCALL_PUT, put, int, a, char *, b, long, c);'',
          sc_sys_id = ''K_SYSCALL_PUT'', sc_table_entry = ''[K_SYSCALL_PUT] = _handler_put''\<rparr>"
    (is "_ = Inr ?r")
    by code_simp
  have m: "macro_name 3 True False = ''K_SYSCALL_DECLARE3_VOID''"
    by code_simp
  have t: "takeWhile (\<lambda>c. c \<noteq> CHR ''('')
             ''K_SYSCALL_DECLARE3_VOID(K_SYSCALL_PUT, put, int, a, char *, b, long, c);''
           = ''K_SYSCALL_DECLARE3_VOID''"
    by simp
  show ?thesis
    using h m t
      macro_name_encodes [of 3 True False 3 True True "''syscall''" "''void put''"
        "''int a, char *b, long c''" "''log.h''" ?r]
    by simp
qed

text \<open>
  Claim C3. The script compares the argument list with \<^verbatim>\<open>void\<close> before any trimming, while
  it trims every piece of the other branch. For \<^verbatim>\<open>__syscall int f( void );\<close> the text
  between the parentheses trims to \<^verbatim>\<open>void\<close>, and yet the analyzer takes the other branch
  and returns one argument, with an empty type and the name \<^verbatim>\<open>void\<close>, under the macro of
  one argument.
\<close>

theorem untrimmed_void_gives_one_argument:
  "strip '' void '' = ''void''
   \<and> finditer ''__syscall int f( void );'' = [(''syscall'', ''int f'', '' void '')]
   \<and> analyze_args '' void '' = Inr [([], ''void'')]
   \<and> analyze_fn (''syscall'', ''int f'', '' void '') ''a.h'' =
       Inr \<lparr>sc_fn = ''a.h'', sc_handler = ''_handler_f'',
            sc_invocation = ''K_SYSCALL_DECLARE1(K_SYSCALL_F, f, int, , void);'',
            sc_sys_id = ''K_SYSCALL_F'', sc_table_entry = ''[K_SYSCALL_F] = _handler_f''\<rparr>"
  by code_simp

text \<open>
  Claim C4, as the script behaves. The splitter raises the array diagnostic on every
  fragment that holds \<^verbatim>\<open>[\<close>, and the function pointer diagnostic on every fragment that
  holds \<^verbatim>\<open>(\<close> and no \<^verbatim>\<open>[\<close>. On any other fragment it looks at the text without one final line
  feed: when that text has no trailing run of identifier characters, or a line feed stands
  before the run, it raises the malformed invocation diagnostic; otherwise it returns what
  stands before the run, stripped of white space, and the run.
\<close>

theorem typename_split_cases:
  "typename_split item =
     (if CHR ''['' \<in> set item then
        Inl (SyscallParseException
               (''Please pass arrays to syscalls as pointers, unable to process ''
                @ [CHR 0x27] @ item @ [CHR 0x27]))
      else if CHR ''('' \<in> set item then
        Inl (SyscallParseException ''Please use typedefs for function pointers'')
      else if trailing_ident (chomp item) = [] \<or> CHR 0x0A \<in> set (before_ident (chomp item)) then
        Inl (SyscallParseException ''Malformed system call invocation'')
      else Inr (strip (before_ident (chomp item)), trailing_ident (chomp item)))"
  by (simp add: typename_split_def typename_match_spec tm_spec_def Let_def)

text \<open>
  The claim as the specification words it fails on three fragments the extractor can hand
  over: a return fragment broken over two lines has a trailing identifier and is refused,
  a return fragment followed by a line feed does not end in an identifier and is accepted,
  and a fragment with both \<^verbatim>\<open>[\<close> and \<^verbatim>\<open>(\<close> gets the array diagnostic.
\<close>

theorem typename_split_counterexample:
  "finditer ''__syscall int\<newline>bar(void);'' = [(''syscall'', ''int\<newline>bar'', ''void'')]
   \<and> CHR ''['' \<notin> set ''int\<newline>bar'' \<and> CHR ''('' \<notin> set ''int\<newline>bar''
   \<and> trailing_ident ''int\<newline>bar'' = ''bar''
   \<and> typename_split ''int\<newline>bar'' =
       Inl (SyscallParseException ''Malformed system call invocation'')
   \<and> finditer ''__syscall int bar\<newline>(void);'' = [(''syscall'', ''int bar\<newline>'', ''void'')]
   \<and> trailing_ident ''int bar\<newline>'' = []
   \<and> typename_split ''int bar\<newline>'' = Inr (''int'', ''bar'')
   \<and> typename_split ''int a[(''  =
       Inl (SyscallParseException
              (''Please pass arrays to syscalls as pointers, unable to process ''
               @ [CHR 0x27] @ ''int a[('' @ [CHR 0x27]))"
  by code_simp

section \<open>Claims on a whole run\<close>

text \<open>
  Claim C8. If any match of any analyzed file of the walk makes \<open>analyze_fn\<close> raise, the run
  ends with an exception and leaves the files, the standard output and the record of
  writes as they were: only the standard error stream has grown.
\<close>

theorem failure_writes_nothing:
  assumes "(root, files) \<in> set include" and "(fn, body) \<in> set files"
    and "\<not> skipped root fn" and "g \<in> set (finditer body)" and "analyze_fn g fn = Inl x"
  shows "\<exists>diag e. main include d b w = (Some e, w\<lparr>err := err w @ diag\<rparr>)
           \<and> file_at (snd (main include d b w)) = file_at w
           \<and> out (snd (main include d b w)) = out w
           \<and> written (snd (main include d b w)) = written w"
proof -
  have "isl (analyze_file fn body)"
    using assms(4,5) analyze_file_fails [of fn body] by force
  then have "isl (analyze_files root files)"
    using assms(2,3) analyze_files_fails [of root files] by force
  then have "isl (analyze_headers include)"
    using assms(1) analyze_headers_fails [of "include"] by force
  then obtain diag e where "analyze_headers include = Inl (diag, e)"
    by (cases "analyze_headers include") auto
  then have m: "main include d b w = (Some e, w\<lparr>err := err w @ diag\<rparr>)"
    by (simp add: main_def)
  have "main include d b w = (Some e, w\<lparr>err := err w @ diag\<rparr>)
           \<and> file_at (snd (main include d b w)) = file_at w
           \<and> out (snd (main include d b w)) = out w
           \<and> written (snd (main include d b w)) = written w"
    by (simp add: m)
  then show ?thesis by blast
qed

theorem failure_writes_nothing_witness:
  "(''inc'', [(''good.h'', ''__syscall int f(void);''),
              (''bad.h'', ''__syscall int g(void (*cb)(int));'')])
     \<in> set [(''inc'', [(''good.h'', ''__syscall int f(void);''),
                        (''bad.h'', ''__syscall int g(void (*cb)(int));'')])]
   \<and> (''bad.h'', ''__syscall int g(void (*cb)(int));'')
        \<in> set [(''good.h'', ''__syscall int f(void);''),
                (''bad.h'', ''__syscall int g(void (*cb)(int));'')]
   \<and> \<not> skipped ''inc'' ''bad.h''
   \<and> (''syscall'', ''int g'', ''void (*cb'') \<in> set (finditer ''__syscall int g(void (*cb)(int));'')
   \<and> analyze_fn (''syscall'', ''int g'', ''void (*cb'') ''bad.h'' =
       Inl (''In declaration of int g\<newline>'',
            SyscallParseException ''Please use typedefs for function pointers'')
   \<and> (\<exists>diag e.
         main [(''inc'', [(''good.h'', ''__syscall int f(void);''),
                         (''bad.h'', ''__syscall int g(void (*cb)(int));'')])]
              ''dispatch.c'' ''out''
              \<lparr>file_at = Map.empty, dir_set = {[]}, cwd = [], out = [], err = [], written = []\<rparr>
           = (Some e, \<lparr>file_at = Map.empty, dir_set = {[]}, cwd = [], out = [], err = diag, written = []\<rparr>))"
proof -
  have a: "(''inc'', [(''good.h'', ''__syscall int f(void);''),
              (''bad.h'', ''__syscall int g(void (*cb)(int));'')])
     \<in> set [(''inc'', [(''good.h'', ''__syscall int f(void);''),
                        (''bad.h'', ''__syscall int g(void (*cb)(int));'')])]" by simp
  have b: "(''bad.h'', ''__syscall int g(void (*cb)(int));'')
        \<in> set [(''good.h'', ''__syscall int f(void);''),
                (''bad.h'', ''__syscall int g(void (*cb)(int));'')]" by simp
  have c: "\<not> skipped ''inc'' ''bad.h''" by code_simp
  have "finditer ''__syscall int g(void (*cb)(int));'' = [(''syscall'', ''int g'', ''void (*cb'')]"
    by code_simp
  then have d: "(''syscall'', ''int g'', ''void (*cb'')
      \<in> set (finditer ''__syscall int g(void (*cb)(int));'')" by simp
  have e: "analyze_fn (''syscall'', ''int g'', ''void (*cb'') ''bad.h'' =
       Inl (''In declaration of int g\<newline>'',
            SyscallParseException ''Please use typedefs for function pointers'')"
    by code_simp
  have f: "\<exists>diag e.
         main [(''inc'', [(''good.h'', ''__syscall int f(void);''),
                         (''bad.h'', ''__syscall int g(void (*cb)(int));'')])]
              ''dispatch.c'' ''out''
              \<lparr>file_at = Map.empty, dir_set = {[]}, cwd = [], out = [], err = [], written = []\<rparr>
           = (Some e, \<lparr>file_at = Map.empty, dir_set = {[]}, cwd = [], out = [], err = diag, written = []\<rparr>)"
    using failure_writes_nothing [OF a b c d e, of "''dispatch.c''" "''out''"
        "\<lparr>file_at = Map.empty, dir_set = {[]}, cwd = [], out = [], err = [], written = []\<rparr>"]
    by simp
  show ?thesis using a b c d e f by (intro conjI)
qed

end
